theory Spec2Isabelle
  imports Main
begin

section \<open>Strings\<close>

text \<open>
  A JavaScript string is a sequence of code units. The model writes it as a \<open>string\<close>
  (a list of \<open>char\<close>), one \<open>char\<close> per code unit, so it covers the texts whose code
  units lie in the range 0..255; \<open>length\<close> is the \<open>.length\<close> of the source.
\<close>

definition isLineTerminator :: "char \<Rightarrow> bool" where
  \<comment> \<open>LF and CR (the two line terminators below 256)\<close>
  "isLineTerminator ch = (ch = CHR 0x0A \<or> ch = CHR 0x0D)"

definition isWhiteSpace :: "char \<Rightarrow> bool" where
  \<comment> \<open>the class \<open>\s\<close>, also what \<open>trim\<close> strips: TAB, VT, FF, SP, NBSP and the line terminators\<close>
  "isWhiteSpace ch = (ch = CHR 0x09 \<or> ch = CHR 0x0B \<or> ch = CHR 0x0C \<or> ch = CHR 0x20
      \<or> ch = CHR 0xA0 \<or> isLineTerminator ch)"

definition isWordChar :: "char \<Rightarrow> bool" where
  \<comment> \<open>the class \<open>\w\<close>: \<open>[A-Za-z0-9_]\<close>\<close>
  "isWordChar ch = (let n = (of_char ch :: nat) in
      (97 \<le> n \<and> n \<le> 122) \<or> (65 \<le> n \<and> n \<le> 90) \<or> (48 \<le> n \<and> n \<le> 57) \<or> n = 95)"

definition upperCaseChars :: string where
  \<comment> \<open>A-Z, and the upper-case letters of the range 0xC0..0xDE (0xD7 is the multiplication sign)\<close>
  "upperCaseChars = ''ABCDEFGHIJKLMNOPQRSTUVWXYZ'' @
     [CHR 0xC0, CHR 0xC1, CHR 0xC2, CHR 0xC3, CHR 0xC4, CHR 0xC5, CHR 0xC6, CHR 0xC7,
      CHR 0xC8, CHR 0xC9, CHR 0xCA, CHR 0xCB, CHR 0xCC, CHR 0xCD, CHR 0xCE, CHR 0xCF,
      CHR 0xD0, CHR 0xD1, CHR 0xD2, CHR 0xD3, CHR 0xD4, CHR 0xD5, CHR 0xD6,
      CHR 0xD8, CHR 0xD9, CHR 0xDA, CHR 0xDB, CHR 0xDC, CHR 0xDD, CHR 0xDE]"

definition lowerCaseChars :: string where
  "lowerCaseChars = ''abcdefghijklmnopqrstuvwxyz'' @
     [CHR 0xE0, CHR 0xE1, CHR 0xE2, CHR 0xE3, CHR 0xE4, CHR 0xE5, CHR 0xE6, CHR 0xE7,
      CHR 0xE8, CHR 0xE9, CHR 0xEA, CHR 0xEB, CHR 0xEC, CHR 0xED, CHR 0xEE, CHR 0xEF,
      CHR 0xF0, CHR 0xF1, CHR 0xF2, CHR 0xF3, CHR 0xF4, CHR 0xF5, CHR 0xF6,
      CHR 0xF8, CHR 0xF9, CHR 0xFA, CHR 0xFB, CHR 0xFC, CHR 0xFD, CHR 0xFE]"

definition toLowerChar :: "char \<Rightarrow> char" where
  "toLowerChar ch = (case map_of (zip upperCaseChars lowerCaseChars) ch of Some l \<Rightarrow> l | None \<Rightarrow> ch)"

definition toLowerCase :: "string \<Rightarrow> string" where
  "toLowerCase s = map toLowerChar s"

fun startsWith :: "string \<Rightarrow> string \<Rightarrow> bool" where
  "startsWith s [] = True"
| "startsWith [] (b # t) = False"
| "startsWith (a # s) (b # t) = (a = b \<and> startsWith s t)"

fun includes_str :: "string \<Rightarrow> string \<Rightarrow> bool" where
  \<comment> \<open>\<open>s.includes(t)\<close>\<close>
  "includes_str [] t = (t = [])"
| "includes_str (a # s) t = (startsWith (a # s) t \<or> includes_str s t)"

definition slice :: "string \<Rightarrow> nat \<Rightarrow> nat \<Rightarrow> string" where
  \<comment> \<open>\<open>s.slice(a, b)\<close> for non-negative \<open>a\<close> and \<open>b\<close>: both are clamped to the length, empty when \<open>b \<le> a\<close>\<close>
  "slice s a b = take (b - a) (drop a s)"

definition trim :: "string \<Rightarrow> string" where
  "trim s = rev (dropWhile isWhiteSpace (rev (dropWhile isWhiteSpace s)))"

fun findChar :: "char \<Rightarrow> string \<Rightarrow> nat \<Rightarrow> nat option" where
  "findChar c [] i = None"
| "findChar c (a # t) i = (if a = c then Some i else findChar c t (i + 1))"

definition indexOfFrom :: "string \<Rightarrow> char \<Rightarrow> nat \<Rightarrow> nat option" where
  \<comment> \<open>\<open>s.indexOf(c, from)\<close>; \<open>None\<close> is the source's \<open>-1\<close>\<close>
  "indexOfFrom s c from = findChar c (drop from s) from"


section \<open>Regular expressions\<close>

text \<open>
  The analyzer is written with regular-expression literals. They are embedded as terms of
  \<open>regex\<close>, and matched by a backtracking matcher in continuation-passing style, the way
  the language definition gives the semantics of patterns: a matcher takes the current
  state and a continuation for the rest of the pattern, and a failing continuation makes
  the matcher try its next alternative.
\<close>

datatype cclass =
    Lit char                \<comment> \<open>a literal character\<close>
  | Space                   \<comment> \<open>\<open>\s\<close>\<close>
  | NonSpace                \<comment> \<open>\<open>\S\<close>\<close>
  | Word                    \<comment> \<open>\<open>\w\<close>\<close>
  | AnyOf "char list"       \<comment> \<open>\<open>[...]\<close>\<close>
  | NoneOf "char list"      \<comment> \<open>\<open>[^...]\<close>\<close>

datatype regex =
    Chr cclass
  | LineStart                       \<comment> \<open>\<open>^\<close> under the \<open>m\<close> flag\<close>
  | Empty
  | Seq regex regex
  | Alt regex regex                 \<comment> \<open>\<open>a|b\<close>, the left alternative first\<close>
  | Rep nat "nat option" regex      \<comment> \<open>greedy \<open>r{lo,hi}\<close>; \<open>None\<close> is no upper bound\<close>
  | Group nat regex                 \<comment> \<open>the capturing group of that number\<close>

record state =
  rest :: string                        \<comment> \<open>the input from \<open>endIndex\<close> on\<close>
  prev :: "char option"                 \<comment> \<open>the code unit before \<open>endIndex\<close>, if any\<close>
  endIndex :: nat
  captures :: "(nat \<times> string) list"     \<comment> \<open>the groups set so far, the latest binding first\<close>

fun inClass :: "cclass \<Rightarrow> char \<Rightarrow> bool" where
  "inClass (Lit a) ch = (ch = a)"
| "inClass Space ch = isWhiteSpace ch"
| "inClass NonSpace ch = (\<not> isWhiteSpace ch)"
| "inClass Word ch = isWordChar ch"
| "inClass (AnyOf cs) ch = (ch \<in> set cs)"
| "inClass (NoneOf cs) ch = (ch \<notin> set cs)"

fun groupsOf :: "regex \<Rightarrow> nat list" where
  "groupsOf (Seq a b) = groupsOf a @ groupsOf b"
| "groupsOf (Alt a b) = groupsOf a @ groupsOf b"
| "groupsOf (Rep lo hi r) = groupsOf r"
| "groupsOf (Group n r) = n # groupsOf r"
| "groupsOf r = []"

fun rsize :: "regex \<Rightarrow> nat" where
  "rsize (Seq a b) = Suc (rsize a + rsize b)"
| "rsize (Alt a b) = Suc (rsize a + rsize b)"
| "rsize (Rep lo hi r) = Suc (rsize r)"
| "rsize (Group n r) = Suc (rsize r)"
| "rsize r = 0"

fun rmin :: "regex \<Rightarrow> nat" where
  "rmin (Rep lo hi r) = lo"
| "rmin r = 0"

text \<open>
  The repetition is RepeatMatcher: stop when \<open>hi\<close> is used up; otherwise clear the groups of
  the body and run it, continuing with one repetition less; an iteration that is allowed to be
  skipped (\<open>lo = 0\<close>) and consumed nothing fails; when the body fails and \<open>lo = 0\<close>, go on
  without it. A matcher only ever moves forward, so "consumed nothing" is written as
  "the rest did not get shorter".
\<close>

function matcher :: "regex \<Rightarrow> state \<Rightarrow> (state \<Rightarrow> state option) \<Rightarrow> state option" where
  "matcher (Chr cl) x c =
     (case rest x of
        [] \<Rightarrow> None
      | ch # t \<Rightarrow> if inClass cl ch
                 then c \<lparr>rest = t, prev = Some ch, endIndex = endIndex x + 1, captures = captures x\<rparr>
                 else None)"
| "matcher LineStart x c =
     (case prev x of
        None \<Rightarrow> c x
      | Some ch \<Rightarrow> if isLineTerminator ch then c x else None)"
| "matcher Empty x c = c x"
| "matcher (Seq a b) x c = matcher a x (\<lambda>y. matcher b y c)"
| "matcher (Alt a b) x c =
     (case matcher a x c of
        Some z \<Rightarrow> Some z
      | None \<Rightarrow> matcher b x c)"
| "matcher (Rep lo hi r) x c =
     (if hi = Some 0 then c x
      else
        let d = (\<lambda>y. if lo = 0 \<and> \<not> length (rest y) < length (rest x) then None
                     else matcher (Rep (lo - 1) (map_option (\<lambda>k. k - 1) hi) r) y c);
            xr = x\<lparr>captures := filter (\<lambda>(n, w). n \<notin> set (groupsOf r)) (captures x)\<rparr>
        in if lo \<noteq> 0 then matcher r xr d
           else (case matcher r xr d of
                   Some z \<Rightarrow> Some z
                 | None \<Rightarrow> c x))"
| "matcher (Group n r) x c =
     matcher r x (\<lambda>y. c (y\<lparr>captures := (n, take (endIndex y - endIndex x) (rest x)) # captures y\<rparr>))"
  by pat_completeness auto
termination
  by (relation "inv_image (less_than <*lex*> less_than <*lex*> less_than)
        (\<lambda>(r, x, c). (rsize r, rmin r, length (rest x)))") auto

declare matcher.simps [simp del]

definition lit :: "string \<Rightarrow> regex" where
  \<comment> \<open>a run of literal characters\<close>
  "lit s = foldr (\<lambda>ch r. Seq (Chr (Lit ch)) r) s Empty"

definition seq :: "regex list \<Rightarrow> regex" where
  "seq rs = foldr Seq rs Empty"

fun alts :: "regex list \<Rightarrow> regex" where
  "alts [] = Empty"
| "alts [r] = r"
| "alts (r # rs) = Alt r (alts rs)"

definition star :: "regex \<Rightarrow> regex" where
  "star r = Rep 0 None r"

definition plus :: "regex \<Rightarrow> regex" where
  "plus r = Rep 1 None r"

definition opt :: "regex \<Rightarrow> regex" where
  "opt r = Rep 0 (Some 1) r"

record rmatch =
  index :: nat                          \<comment> \<open>\<open>match.index\<close>\<close>
  matched :: string                     \<comment> \<open>\<open>match[0]\<close>\<close>
  groups :: "(nat \<times> string) list"       \<comment> \<open>\<open>match[1]\<close>, \<open>match[2]\<close>, ...: absent when undefined\<close>
  after :: state                        \<comment> \<open>where the match ends: the next \<open>lastIndex\<close>\<close>

definition grp :: "rmatch \<Rightarrow> nat \<Rightarrow> string option" where
  "grp m n = map_of (groups m) n"

text \<open>
  \<open>exec\<close> of a pattern with the \<open>g\<close> flag: try the pattern at \<open>lastIndex\<close>, then one code unit
  further, up to the end of the input.
\<close>

function scan :: "regex \<Rightarrow> state \<Rightarrow> rmatch option" where
  "scan re x =
     (case matcher re x Some of
        Some y \<Rightarrow> Some \<lparr>index = endIndex x, matched = take (endIndex y - endIndex x) (rest x),
                         groups = captures y, after = y\<lparr>captures := []\<rparr>\<rparr>
      | None \<Rightarrow>
          (case rest x of
             [] \<Rightarrow> None
           | ch # t \<Rightarrow> scan re \<lparr>rest = t, prev = Some ch, endIndex = endIndex x + 1, captures = []\<rparr>))"
  by pat_completeness auto
termination
  by (relation "measure (\<lambda>(re, x). length (rest x))") auto

declare scan.simps [simp del]

text \<open>
  The loop \<open>while ((match = re.exec(source)) !== null)\<close>, returning the matches in the order
  the loop sees them. A match that leaves \<open>lastIndex\<close> where it was is found again on the next
  turn, and the source loops forever: that is the result \<open>None\<close>.
\<close>

function execLoop :: "regex \<Rightarrow> state \<Rightarrow> rmatch list option" where
  "execLoop re x =
     (case scan re x of
        None \<Rightarrow> Some []
      | Some m \<Rightarrow>
          if length (rest (after m)) < length (rest x)
          then map_option ((#) m) (execLoop re (after m))
          else None)"
  by pat_completeness auto
termination
  by (relation "measure (\<lambda>(re, x). length (rest x))") auto

declare execLoop.simps [simp del]

definition matchAll :: "regex \<Rightarrow> string \<Rightarrow> rmatch list option" where
  "matchAll re s = execLoop re \<lparr>rest = s, prev = None, endIndex = 0, captures = []\<rparr>"

section \<open>The analyzer: exported symbols\<close>

datatype classMethod = Method (mname: string) (msignature: string)

datatype export =
    isFunction: FunctionExport (name: string) (signature: string) (async: bool) (isDefault: bool)
  | isClass: ClassExport (name: string) (extendsName: "string option") (methods: "classMethod list") (signature: string)

text \<open>
  The result of an extractor is an \<open>option\<close>: \<open>None\<close> stands for every way in which the
  source function would not hand back a well-formed list (its \<open>while\<close> loop never ends, or it
  calls a string method on a group that is \<open>undefined\<close>).
\<close>

definition methodRegex :: regex where
  \<comment> \<open>\<open>/(?:(?:async|static|get|set|public|private|protected)\s+)*(\w+)\s*\(([^)]*)\)\s*(?::\s*\w+)?\s*\{/g\<close>\<close>
  "methodRegex = seq [
      star (seq [alts [lit ''async'', lit ''static'', lit ''get'', lit ''set'', lit ''public'',
                       lit ''private'', lit ''protected''], plus (Chr Space)]),
      Group 1 (plus (Chr Word)), star (Chr Space),
      Chr (Lit CHR ''(''), Group 2 (star (Chr (NoneOf [CHR '')'']))), Chr (Lit CHR '')''),
      star (Chr Space),
      opt (seq [Chr (Lit CHR '':''), star (Chr Space), plus (Chr Word)]),
      star (Chr Space), Chr (Lit CHR ''{'')]"

definition controlKeywords :: "string list" where
  "controlKeywords = [''if'', ''for'', ''while'', ''switch'', ''catch'']"

fun scanBraces :: "string \<Rightarrow> nat \<Rightarrow> int \<Rightarrow> nat \<Rightarrow> nat" where
  \<comment> \<open>the loop over \<open>i\<close>: the characters from \<open>i\<close> on, \<open>i\<close>, \<open>depth\<close>, and \<open>source.length\<close>;
      the result is \<open>classBodyEnd\<close>\<close>
  "scanBraces [] i depth len = len"
| "scanBraces (ch # t) i depth len =
     (let depth1 = (if ch = CHR ''{'' then depth + 1 else depth)
      in if ch = CHR ''}''
         then (let depth2 = depth1 - 1
               in if depth2 = 0 then i else scanBraces t (i + 1) depth2 len)
         else scanBraces t (i + 1) depth1 len)"

definition classBodyEnd :: "string \<Rightarrow> nat \<Rightarrow> nat" where
  "classBodyEnd source braceStart = scanBraces (drop braceStart source) braceStart 0 (length source)"

fun collectMethods :: "rmatch list \<Rightarrow> classMethod list option" where
  "collectMethods [] = Some []"
| "collectMethods (m # ms) =
     (case grp m 1 of
        None \<Rightarrow> None
      | Some nm \<Rightarrow>
          if nm \<in> set controlKeywords then collectMethods ms
          else (case grp m 2 of
                  None \<Rightarrow> None
                | Some params \<Rightarrow>
                    map_option ((#) (Method nm (nm @ ''('' @ trim params @ '')'')))
                      (collectMethods ms)))"

definition extractClassMethods :: "string \<Rightarrow> nat \<Rightarrow> classMethod list option" where
  "extractClassMethods source classStart =
     (case indexOfFrom source CHR ''{'' classStart of
        None \<Rightarrow> Some []
      | Some braceStart \<Rightarrow>
          let classBodyStart = braceStart + 1;
              classBody = slice source classBodyStart (classBodyEnd source braceStart)
          in Option.bind (matchAll methodRegex classBody) collectMethods)"

definition namedFuncRegex :: regex where
  \<comment> \<open>\<open>/export\s+(?:async\s+)?function\s+(\w+)\s*\(([^)]*)\)/g\<close>\<close>
  "namedFuncRegex = seq [lit ''export'', plus (Chr Space),
      opt (seq [lit ''async'', plus (Chr Space)]),
      lit ''function'', plus (Chr Space), Group 1 (plus (Chr Word)), star (Chr Space),
      Chr (Lit CHR ''(''), Group 2 (star (Chr (NoneOf [CHR '')'']))), Chr (Lit CHR '')'')]"

definition arrowFuncRegex :: regex where
  \<comment> \<open>\<open>/export\s+const\s+(\w+)\s*=\s*(?:async\s*)?\(([^)]*)\)\s*=>/g\<close>\<close>
  "arrowFuncRegex = seq [lit ''export'', plus (Chr Space), lit ''const'', plus (Chr Space),
      Group 1 (plus (Chr Word)), star (Chr Space), Chr (Lit CHR ''=''), star (Chr Space),
      opt (seq [lit ''async'', star (Chr Space)]),
      Chr (Lit CHR ''(''), Group 2 (star (Chr (NoneOf [CHR '')'']))), Chr (Lit CHR '')''),
      star (Chr Space), lit ''=>'']"

definition classRegex :: regex where
  \<comment> \<open>\<open>/export\s+(?:default\s+)?class\s+(\w+)(?:\s+extends\s+(\w+))?/g\<close>\<close>
  "classRegex = seq [lit ''export'', plus (Chr Space),
      opt (seq [lit ''default'', plus (Chr Space)]),
      lit ''class'', plus (Chr Space), Group 1 (plus (Chr Word)),
      opt (seq [plus (Chr Space), lit ''extends'', plus (Chr Space), Group 2 (plus (Chr Word))])]"

definition defaultFuncRegex :: regex where
  \<comment> \<open>\<open>/export\s+default\s+(?:async\s+)?function\s*(\w*)\s*\(([^)]*)\)/g\<close>\<close>
  "defaultFuncRegex = seq [lit ''export'', plus (Chr Space), lit ''default'', plus (Chr Space),
      opt (seq [lit ''async'', plus (Chr Space)]),
      lit ''function'', star (Chr Space), Group 1 (star (Chr Word)), star (Chr Space),
      Chr (Lit CHR ''(''), Group 2 (star (Chr (NoneOf [CHR '')'']))), Chr (Lit CHR '')'')]"

definition functionExport :: "nat \<Rightarrow> bool \<Rightarrow> string \<Rightarrow> rmatch \<Rightarrow> export option" where
  \<comment> \<open>the object pushed by the three function passes: \<open>window\<close> is 25, 45 or 35, and the name of
      the default pass falls back to \<open>'default'\<close> when the group is empty\<close>
  "functionExport window dflt source m =
     (case (grp m 1, grp m 2) of
        (Some g1, Some g2) \<Rightarrow>
          let nm = (if dflt \<and> g1 = [] then ''default'' else g1)
          in Some (FunctionExport nm (nm @ ''('' @ trim g2 @ '')'')
                     (includes_str (slice source (index m) (index m + window)) ''async'') dflt)
      | _ \<Rightarrow> None)"

definition orNull :: "string option \<Rightarrow> string option" where
  \<comment> \<open>\<open>match[2] || null\<close>: \<open>undefined\<close> and the empty string give \<open>null\<close>\<close>
  "orNull g = (case g of None \<Rightarrow> None | Some s \<Rightarrow> if s = [] then None else Some s)"

definition classExport :: "string \<Rightarrow> rmatch \<Rightarrow> export option" where
  "classExport source m =
     (case grp m 1 of
        None \<Rightarrow> None
      | Some g1 \<Rightarrow>
          (case extractClassMethods source (index m) of
             None \<Rightarrow> None
           | Some ms \<Rightarrow>
               Some (ClassExport g1 (orNull (grp m 2)) ms
                      (''class '' @ g1 @ (case orNull (grp m 2) of
                                            None \<Rightarrow> []
                                          | Some b \<Rightarrow> '' extends '' @ b)))))"

definition pass :: "regex \<Rightarrow> (rmatch \<Rightarrow> 'a option) \<Rightarrow> string \<Rightarrow> 'a list option" where
  \<comment> \<open>one \<open>while\<close> loop over the matches of a pattern, pushing one object per match\<close>
  "pass re build source = Option.bind (matchAll re source) (\<lambda>ms. those (map build ms))"

definition extractJSExports :: "string \<Rightarrow> export list option" where
  "extractJSExports source =
     Option.bind (pass namedFuncRegex (functionExport 25 False source) source) (\<lambda>e1.
     Option.bind (pass arrowFuncRegex (functionExport 45 False source) source) (\<lambda>e2.
     Option.bind (pass classRegex (classExport source) source) (\<lambda>e3.
     Option.bind (pass defaultFuncRegex (functionExport 35 True source) source) (\<lambda>e4.
     Some (e1 @ e2 @ e3 @ e4)))))"

definition pyFuncRegex :: regex where
  \<comment> \<open>\<open>/^(?:async\s+)?def\s+(\w+)\s*\(([^)]*)\)/gm\<close>\<close>
  "pyFuncRegex = seq [LineStart, opt (seq [lit ''async'', plus (Chr Space)]),
      lit ''def'', plus (Chr Space), Group 1 (plus (Chr Word)), star (Chr Space),
      Chr (Lit CHR ''(''), Group 2 (star (Chr (NoneOf [CHR '')'']))), Chr (Lit CHR '')'')]"

definition pyClassRegex :: regex where
  \<comment> \<open>\<open>/^class\s+(\w+)(?:\(([^)]*)\))?:/gm\<close>\<close>
  "pyClassRegex = seq [LineStart, lit ''class'', plus (Chr Space), Group 1 (plus (Chr Word)),
      opt (seq [Chr (Lit CHR ''(''), Group 2 (star (Chr (NoneOf [CHR '')'']))), Chr (Lit CHR '')'')]),
      Chr (Lit CHR '':'')]"

fun collectPyFunctions :: "rmatch list \<Rightarrow> export list option" where
  "collectPyFunctions [] = Some []"
| "collectPyFunctions (m # ms) =
     (case grp m 1 of
        None \<Rightarrow> None
      | Some g1 \<Rightarrow>
          if startsWith g1 ''_'' then collectPyFunctions ms
          else (case grp m 2 of
                  None \<Rightarrow> None
                | Some g2 \<Rightarrow>
                    map_option ((#) (FunctionExport g1 (g1 @ ''('' @ trim g2 @ '')'')
                                       (startsWith (trim (matched m)) ''async'') False))
                      (collectPyFunctions ms)))"

definition pyClassExport :: "rmatch \<Rightarrow> export option" where
  "pyClassExport m =
     (case grp m 1 of
        None \<Rightarrow> None
      | Some g1 \<Rightarrow>
          Some (ClassExport g1 (orNull (grp m 2)) []
                 (''class '' @ g1 @ (case orNull (grp m 2) of
                                       None \<Rightarrow> []
                                     | Some b \<Rightarrow> ''('' @ b @ '')''))))"

definition extractPythonExports :: "string \<Rightarrow> export list option" where
  "extractPythonExports source =
     Option.bind (Option.bind (matchAll pyFuncRegex source) collectPyFunctions) (\<lambda>e1.
     Option.bind (pass pyClassRegex pyClassExport source) (\<lambda>e2.
     Some (e1 @ e2)))"


section \<open>The analyzer: imports\<close>

definition jsImportRegex :: regex where
  \<comment> \<open>\<open>/import\s+(?:(?:\{[^}]*\}|\*\s+as\s+\w+|\w+)(?:\s*,\s*(?:\{[^}]*\}|\w+))*\s+from\s+)?['"]([^'"]+)['"]/g\<close>\<close>
  "jsImportRegex = seq [lit ''import'', plus (Chr Space),
      opt (seq [
        alts [seq [Chr (Lit CHR ''{''), star (Chr (NoneOf [CHR ''}''])), Chr (Lit CHR ''}'')],
              seq [Chr (Lit CHR ''*''), plus (Chr Space), lit ''as'', plus (Chr Space), plus (Chr Word)],
              plus (Chr Word)],
        star (seq [star (Chr Space), Chr (Lit CHR '',''), star (Chr Space),
                   alts [seq [Chr (Lit CHR ''{''), star (Chr (NoneOf [CHR ''}''])), Chr (Lit CHR ''}'')],
                         plus (Chr Word)]]),
        plus (Chr Space), lit ''from'', plus (Chr Space)]),
      Chr (AnyOf [CHR 0x27, CHR 0x22]),
      Group 1 (plus (Chr (NoneOf [CHR 0x27, CHR 0x22]))),
      Chr (AnyOf [CHR 0x27, CHR 0x22])]"

definition extractJSImports :: "string \<Rightarrow> string list option" where
  "extractJSImports source = pass jsImportRegex (\<lambda>m. grp m 1) source"

definition pyImportRegex :: regex where
  \<comment> \<open>\<open>/^(?:from\s+(\S+)\s+import|import\s+(\S+))/gm\<close>\<close>
  "pyImportRegex = seq [LineStart,
      alts [seq [lit ''from'', plus (Chr Space), Group 1 (plus (Chr NonSpace)), plus (Chr Space),
                 lit ''import''],
            seq [lit ''import'', plus (Chr Space), Group 2 (plus (Chr NonSpace))]]]"

definition firstTruthy :: "string option \<Rightarrow> string option \<Rightarrow> string option" where
  \<comment> \<open>\<open>match[1] || match[2]\<close>, when that is a string\<close>
  "firstTruthy a b = (case orNull a of Some s \<Rightarrow> Some s | None \<Rightarrow> b)"

definition extractPythonImports :: "string \<Rightarrow> string list option" where
  "extractPythonImports source = pass pyImportRegex (\<lambda>m. firstTruthy (grp m 1) (grp m 2)) source"

section \<open>Paths\<close>

text \<open>
  \<open>extname\<close> and \<open>dirname\<close> are the functions of the runtime's path module for POSIX paths.
  Both scan the path from its last character to its first; the model walks the reversed path,
  where the index of the character looked at is the length of what is still before it.
\<close>

record extScan =
  startDot :: int
  startPart :: int
  endPos :: int
  matchedSlash :: bool
  preDotState :: int

fun extnameLoop :: "string \<Rightarrow> extScan \<Rightarrow> extScan" where
  "extnameLoop [] st = st"
| "extnameLoop (code # front) st =
     (let i = int (length front)
      in if code = CHR ''/''
         then (if \<not> matchedSlash st then st\<lparr>startPart := i + 1\<rparr> else extnameLoop front st)
         else
           let st1 = (if endPos st = - 1 then st\<lparr>endPos := i + 1, matchedSlash := False\<rparr> else st);
               st2 = (if code = CHR ''.''
                      then (if startDot st1 = - 1 then st1\<lparr>startDot := i\<rparr>
                            else if preDotState st1 \<noteq> 1 then st1\<lparr>preDotState := 1\<rparr>
                            else st1)
                      else if startDot st1 \<noteq> - 1 then st1\<lparr>preDotState := - 1\<rparr>
                      else st1)
           in extnameLoop front st2)"

declare extnameLoop.simps(2) [simp del]

definition extname :: "string \<Rightarrow> string" where
  "extname path =
     (let st = extnameLoop (rev path)
                 \<lparr>startDot = - 1, startPart = 0, endPos = - 1, matchedSlash = True, preDotState = 0\<rparr>
      in if startDot st = - 1 \<or> endPos st = - 1 \<or> preDotState st = 0
            \<or> (preDotState st = 1 \<and> startDot st = endPos st - 1 \<and> startDot st = startPart st + 1)
         then []
         else slice path (nat (startDot st)) (nat (endPos st)))"

fun dirnameLoop :: "string \<Rightarrow> bool \<Rightarrow> int" where
  \<comment> \<open>the characters at the indices \<open>path.length - 1\<close> down to 1, and \<open>matchedSlash\<close>; the result is \<open>end\<close>\<close>
  "dirnameLoop [] ms = - 1"
| "dirnameLoop (code # front) ms =
     (if code = CHR ''/''
      then (if \<not> ms then int (length front) + 1 else dirnameLoop front ms)
      else dirnameLoop front False)"

definition dirname :: "string \<Rightarrow> string" where
  "dirname path =
     (if path = [] then ''.''
      else
        let hasRoot = (hd path = CHR ''/'');
            e = dirnameLoop (rev (tl path)) True
        in if e = - 1 then (if hasRoot then ''/'' else ''.'')
           else if hasRoot \<and> e = 1 then ''//''
           else slice path 0 (nat e))"


section \<open>Language detection\<close>

datatype language = JavaScript | TypeScript | Python

definition LANGUAGE_MAP :: "(string \<times> language) list" where
  "LANGUAGE_MAP = [
     (''.js'', JavaScript),
     (''.jsx'', JavaScript),
     (''.mjs'', JavaScript),
     (''.cjs'', JavaScript),
     (''.ts'', TypeScript),
     (''.tsx'', TypeScript),
     (''.mts'', TypeScript),
     (''.py'', Python)]"

definition detectLanguage :: "string \<Rightarrow> language option" where
  \<comment> \<open>\<open>None\<close> is the source's \<open>null\<close>\<close>
  "detectLanguage filePath = (let ext = toLowerCase (extname filePath) in map_of LANGUAGE_MAP ext)"


section \<open>Parsed manifests\<close>

text \<open>
  The values that parsing a manifest produces. A number is kept as the text that serialising
  it writes; an object lists its properties in the order of their creation.
\<close>

datatype json =
    JNull
  | JBool bool
  | JNum string
  | JStr string
  | JArr "json list"
  | JObj "(string \<times> json) list"

fun truthy :: "json \<Rightarrow> bool" where
  "truthy JNull = False"
| "truthy (JBool b) = b"
| "truthy (JNum s) = (s \<noteq> ''0'')"
| "truthy (JStr s) = (s \<noteq> [])"
| "truthy (JArr xs) = True"
| "truthy (JObj kvs) = True"

definition digitChar :: "nat \<Rightarrow> char" where
  \<comment> \<open>for \<open>n < 10\<close>\<close>
  "digitChar n = ''0123456789'' ! n"

function showNat :: "nat \<Rightarrow> string" where
  "showNat n = (if n < 10 then [digitChar n] else showNat (n div 10) @ [digitChar (n mod 10)])"
  by pat_completeness auto
termination
  by (relation "measure id") auto

declare showNat.simps [simp del]

definition isDigit :: "char \<Rightarrow> bool" where
  "isDigit ch = (48 \<le> (of_char ch :: nat) \<and> (of_char ch :: nat) \<le> 57)"

definition readNat :: "string \<Rightarrow> int" where
  "readNat s = foldl (\<lambda>a ch. 10 * a + (of_char ch - 48)) 0 s"

definition isArrayIndex :: "string \<Rightarrow> bool" where
  \<comment> \<open>a canonical numeric property name below \<open>2^32 - 1\<close>\<close>
  "isArrayIndex k = (k \<noteq> [] \<and> list_all isDigit k \<and> (k = ''0'' \<or> hd k \<noteq> CHR ''0'')
       \<and> readNat k < 4294967295)"

definition ownProperties :: "(string \<times> json) list \<Rightarrow> (string \<times> json) list" where
  \<comment> \<open>the order in which the properties of an object are enumerated: array indices in
      ascending order, then the other names in the order of their creation\<close>
  "ownProperties kvs =
     sort_key (\<lambda>(k, v). readNat k) (filter (\<lambda>(k, v). isArrayIndex k) kvs)
       @ filter (\<lambda>(k, v). \<not> isArrayIndex k) kvs"

definition setProperty :: "(string \<times> json) list \<Rightarrow> string \<times> json \<Rightarrow> (string \<times> json) list" where
  "setProperty kvs kv =
     (if fst kv \<in> fst ` set kvs
      then map (\<lambda>(k, v). if k = fst kv then kv else (k, v)) kvs
      else kvs @ [kv])"

fun spreadProperties :: "json \<Rightarrow> (string \<times> json) list" where
  \<comment> \<open>the properties that \<open>{...value}\<close> copies\<close>
  "spreadProperties (JObj kvs) = ownProperties kvs"
| "spreadProperties (JArr xs) = zip (map showNat [0..<length xs]) xs"
| "spreadProperties (JStr s) = zip (map showNat [0..<length s]) (map (\<lambda>ch. JStr [ch]) s)"
| "spreadProperties v = []"

definition getProperty :: "json \<Rightarrow> string \<Rightarrow> json option" where
  \<comment> \<open>\<open>pkg.dependencies\<close> and its like on a value other than \<open>null\<close>; \<open>None\<close> is \<open>undefined\<close>\<close>
  "getProperty v k = (case v of JObj kvs \<Rightarrow> map_of kvs k | _ \<Rightarrow> None)"

definition orEmptyObject :: "json option \<Rightarrow> json" where
  \<comment> \<open>\<open>value || {}\<close>\<close>
  "orEmptyObject v = (case v of None \<Rightarrow> JObj [] | Some j \<Rightarrow> if truthy j then j else JObj [])"

definition hexDigit :: "nat \<Rightarrow> char" where
  \<comment> \<open>for \<open>n < 16\<close>\<close>
  "hexDigit n = ''0123456789abcdef'' ! n"

definition escapeChar :: "char \<Rightarrow> string" where
  "escapeChar ch =
     (if ch = CHR 0x08 then [CHR 0x5C, CHR ''b'']
      else if ch = CHR 0x09 then [CHR 0x5C, CHR ''t'']
      else if ch = CHR 0x0A then [CHR 0x5C, CHR ''n'']
      else if ch = CHR 0x0C then [CHR 0x5C, CHR ''f'']
      else if ch = CHR 0x0D then [CHR 0x5C, CHR ''r'']
      else if ch = CHR 0x22 then [CHR 0x5C, CHR 0x22]
      else if ch = CHR 0x5C then [CHR 0x5C, CHR 0x5C]
      else if (of_char ch :: nat) < 32
        then [CHR 0x5C, CHR ''u'', CHR ''0'', CHR ''0'',
              hexDigit (of_char ch div 16), hexDigit (of_char ch mod 16)]
      else [ch])"

definition quoteJSON :: "string \<Rightarrow> string" where
  "quoteJSON s = [CHR 0x22] @ concat (map escapeChar s) @ [CHR 0x22]"

fun commaSep :: "string list \<Rightarrow> string" where
  "commaSep [] = []"
| "commaSep [x] = x"
| "commaSep (x # xs) = x @ '','' @ commaSep xs"

lemma ownProperties_subset: "set (ownProperties kvs) \<subseteq> set kvs"
  by (auto simp add: ownProperties_def)

function JSON_stringify :: "json \<Rightarrow> string" where
  "JSON_stringify JNull = ''null''"
| "JSON_stringify (JBool b) = (if b then ''true'' else ''false'')"
| "JSON_stringify (JNum s) = s"
| "JSON_stringify (JStr s) = quoteJSON s"
| "JSON_stringify (JArr xs) = ''['' @ commaSep (map JSON_stringify xs) @ '']''"
| "JSON_stringify (JObj kvs) =
     ''{'' @ commaSep (map (\<lambda>kv. quoteJSON (fst kv) @ '':'' @ JSON_stringify (snd kv)) (ownProperties kvs)) @ ''}''"
  by pat_completeness auto
termination
proof (relation "measure size")
  fix kvs :: "(string \<times> json) list" and kv
  assume "kv \<in> set (ownProperties kvs)"
  then have "kv \<in> set kvs" using ownProperties_subset by blast
  then have "size_prod (\<lambda>x. 0) size kv \<le> size_list (size_prod (\<lambda>x. 0) size) kvs"
    by (rule size_list_estimation') simp
  moreover have "size (snd kv) < size_prod (\<lambda>x. 0) size kv"
    by (cases kv) simp
  ultimately show "(snd kv, JObj kvs) \<in> measure size" by simp
next
  fix xs :: "json list" and x
  assume "x \<in> set xs"
  then have "size x \<le> size_list size xs"
    by (rule size_list_estimation') simp
  then show "(x, JArr xs) \<in> measure size" by simp
qed simp


section \<open>Framework detection\<close>

datatype framework = Jest | Vitest | Mocha | Pytest

definition FRAMEWORK_CONFIG_FILES :: "(framework \<times> string list) list" where
  "FRAMEWORK_CONFIG_FILES = [
     (Jest, [''jest.config.js'', ''jest.config.ts'', ''jest.config.mjs'', ''jest.config.cjs'']),
     (Vitest, [''vitest.config.js'', ''vitest.config.ts'', ''vitest.config.mts'']),
     (Mocha, [''.mocharc.js'', ''.mocharc.cjs'', ''.mocharc.yaml'', ''.mocharc.yml'', ''.mocharc.json'']),
     (Pytest, [''pytest.ini'', ''conftest.py''])]"

text \<open>
  What the analyzer is run in: the file system, and the two functions of the runtime that
  the model leaves open. \<open>readFile\<close> gives the text of a file, or \<open>None\<close> when the read is
  rejected; \<open>access\<close> tells whether the probe of a path succeeds; \<open>JSON_parse\<close> gives the
  parsed value, or \<open>None\<close> when parsing throws; \<open>join\<close> joins a directory and a file name.
  Every call that touches the file system is written to a trace.
\<close>

record env =
  join :: "string \<Rightarrow> string \<Rightarrow> string"
  JSON_parse :: "string \<Rightarrow> json option"
  readFile :: "string \<Rightarrow> string option"
  access :: "string \<Rightarrow> bool"

datatype fsop = ReadFile string | Access string

fun walkUp :: "nat \<Rightarrow> string \<Rightarrow> string list" where
  \<comment> \<open>the \<open>for\<close> loop with the turns it has left, and \<open>current\<close>; the result is what it pushes\<close>
  "walkUp 0 current = []"
| "walkUp (Suc k) current =
     (let parent = dirname current
      in if parent = current then [] else parent # walkUp k parent)"

definition searchDirs :: "string \<Rightarrow> string list" where
  "searchDirs filePath = (let dir = dirname filePath in dir # walkUp 4 dir)"

definition allDeps :: "json \<Rightarrow> (string \<times> json) list" where
  \<comment> \<open>\<open>{...(pkg.dependencies || {}), ...(pkg.devDependencies || {}), ...(pkg.scripts || {})}\<close>\<close>
  "allDeps pkg =
     foldl setProperty []
       (spreadProperties (orEmptyObject (getProperty pkg ''dependencies''))
        @ spreadProperties (orEmptyObject (getProperty pkg ''devDependencies''))
        @ spreadProperties (orEmptyObject (getProperty pkg ''scripts'')))"

definition depsStr :: "json \<Rightarrow> string" where
  "depsStr pkg = toLowerCase (JSON_stringify (JObj (allDeps pkg)))"

definition fromPackageJson :: "env \<Rightarrow> string \<Rightarrow> framework option" where
  \<comment> \<open>the first \<open>try\<close> block; \<open>None\<close> when it falls through, also by its \<open>catch\<close>: the read is
      rejected, parsing throws, or the manifest is \<open>null\<close> and reading a property of it throws\<close>
  "fromPackageJson e searchDir =
     (let pkgPath = join e searchDir ''package.json''
      in case readFile e pkgPath of
           None \<Rightarrow> None
         | Some pkgContent \<Rightarrow>
             (case JSON_parse e pkgContent of
                None \<Rightarrow> None
              | Some pkg \<Rightarrow>
                  if pkg = JNull then None
                  else if includes_str (depsStr pkg) ''vitest'' then Some Vitest
                  else if includes_str (depsStr pkg) ''jest'' then Some Jest
                  else if includes_str (depsStr pkg) ''mocha'' then Some Mocha
                  else None))"

definition fromPyproject :: "env \<Rightarrow> string \<Rightarrow> framework option" where
  \<comment> \<open>the second \<open>try\<close> block\<close>
  "fromPyproject e searchDir =
     (let pyprojectPath = join e searchDir ''pyproject.toml''
      in case readFile e pyprojectPath of
           None \<Rightarrow> None
         | Some content \<Rightarrow>
             if includes_str content ''[tool.pytest'' \<or> includes_str content ''pytest''
             then Some Pytest else None)"

fun probeFiles :: "env \<Rightarrow> string \<Rightarrow> framework \<Rightarrow> string list \<Rightarrow> framework option \<times> fsop list" where
  \<comment> \<open>the inner \<open>for\<close> loop over the config files of one framework\<close>
  "probeFiles e searchDir fw [] = (None, [])"
| "probeFiles e searchDir fw (configFile # others) =
     (let p = join e searchDir configFile
      in if access e p then (Some fw, [Access p])
         else (let (r, t) = probeFiles e searchDir fw others in (r, Access p # t)))"

fun probeConfigs :: "env \<Rightarrow> string \<Rightarrow> (framework \<times> string list) list \<Rightarrow> framework option \<times> fsop list" where
  \<comment> \<open>the outer \<open>for\<close> loop over the entries of the table\<close>
  "probeConfigs e searchDir [] = (None, [])"
| "probeConfigs e searchDir ((fw, configFiles) # others) =
     (case probeFiles e searchDir fw configFiles of
        (Some f, t) \<Rightarrow> (Some f, t)
      | (None, t) \<Rightarrow> (let (r, t2) = probeConfigs e searchDir others in (r, t @ t2)))"

definition inDirectory :: "env \<Rightarrow> string \<Rightarrow> framework option \<times> fsop list" where
  \<comment> \<open>one turn of the loop over \<open>searchDirs\<close>\<close>
  "inDirectory e searchDir =
     (let t1 = [ReadFile (join e searchDir ''package.json'')]
      in case fromPackageJson e searchDir of
           Some f \<Rightarrow> (Some f, t1)
         | None \<Rightarrow>
             (let t2 = t1 @ [ReadFile (join e searchDir ''pyproject.toml'')]
              in case fromPyproject e searchDir of
                   Some f \<Rightarrow> (Some f, t2)
                 | None \<Rightarrow>
                     (let (r, t3) = probeConfigs e searchDir FRAMEWORK_CONFIG_FILES
                      in (r, t2 @ t3))))"

fun searchLoop :: "env \<Rightarrow> string list \<Rightarrow> framework option \<times> fsop list" where
  "searchLoop e [] = (None, [])"
| "searchLoop e (searchDir # others) =
     (case inDirectory e searchDir of
        (Some f, t) \<Rightarrow> (Some f, t)
      | (None, t) \<Rightarrow> (let (r, t2) = searchLoop e others in (r, t @ t2)))"

definition detectFramework :: "env \<Rightarrow> string \<Rightarrow> framework option \<times> fsop list" where
  \<comment> \<open>the framework found (\<open>None\<close> is the source's \<open>null\<close>) and the trace of the search\<close>
  "detectFramework e filePath = searchLoop e (searchDirs filePath)"


section \<open>The analysis of a file\<close>

datatype error =
    Error string        \<comment> \<open>\<open>throw new Error(message)\<close>\<close>
  | ReadRejected        \<comment> \<open>the read of the source file is rejected\<close>
  | NoResult            \<comment> \<open>an extractor does not hand back a list\<close>

record analysis =
  r_filePath :: string
  r_language :: language
  r_framework :: framework
  r_source :: string
  r_exports :: "export list"
  r_imports :: "string list"
  r_lineCount :: nat
  r_functionCount :: nat
  r_classCount :: nat

definition extractAll :: "language \<Rightarrow> string \<Rightarrow> (export list \<times> string list) option" where
  "extractAll lang source =
     (if lang = JavaScript \<or> lang = TypeScript
      then Option.bind (extractJSExports source) (\<lambda>es.
           Option.bind (extractJSImports source) (\<lambda>ims. Some (es, ims)))
      else Option.bind (extractPythonExports source) (\<lambda>es.
           Option.bind (extractPythonImports source) (\<lambda>ims. Some (es, ims))))"

definition analyzeFile :: "env \<Rightarrow> string \<Rightarrow> (error + analysis) \<times> fsop list" where
  "analyzeFile e filePath =
     (case detectLanguage filePath of
        None \<Rightarrow> (Inl (Error (''Unsupported file type: '' @ extname filePath)), [])
      | Some lang \<Rightarrow>
          (case readFile e filePath of
             None \<Rightarrow> (Inl ReadRejected, [ReadFile filePath])
           | Some source \<Rightarrow>
               (let (fw, t) = detectFramework e filePath
                in case extractAll lang source of
                     None \<Rightarrow> (Inl NoResult, ReadFile filePath # t)
                   | Some (es, ims) \<Rightarrow>
                       (Inr \<lparr>r_filePath = filePath,
                             r_language = lang,
                             r_framework = (case fw of
                                              Some f \<Rightarrow> f
                                            | None \<Rightarrow> if lang = Python then Pytest else Jest),
                             r_source = source,
                             r_exports = es,
                             r_imports = ims,
                             r_lineCount = length (filter (\<lambda>ch. ch = CHR 0x0A) source) + 1,
                             r_functionCount = length (filter isFunction es),
                             r_classCount = length (filter isClass es)\<rparr>,
                        ReadFile filePath # t))))"

section \<open>What a pattern matches\<close>

text \<open>
  The texts that a pattern can match, without the order in which the matcher tries them:
  \<open>accepts r p w cs cs'\<close> says that \<open>r\<close> matches the text \<open>w\<close> when the character before
  \<open>w\<close> is \<open>p\<close>, turning the groups \<open>cs\<close> into \<open>cs'\<close>.
\<close>

definition lastChar :: "char option \<Rightarrow> string \<Rightarrow> char option" where
  "lastChar p w = (if w = [] then p else Some (last w))"

inductive accepts :: "regex \<Rightarrow> char option \<Rightarrow> string \<Rightarrow> (nat \<times> string) list \<Rightarrow> (nat \<times> string) list \<Rightarrow> bool" where
  acc_Chr: "inClass cl ch \<Longrightarrow> accepts (Chr cl) p [ch] cs cs"
| acc_LineStart_first: "accepts LineStart None [] cs cs"
| acc_LineStart: "isLineTerminator ch \<Longrightarrow> accepts LineStart (Some ch) [] cs cs"
| acc_Empty: "accepts Empty p [] cs cs"
| acc_Seq: "accepts a p u cs cs1 \<Longrightarrow> accepts b (lastChar p u) v cs1 cs2
            \<Longrightarrow> accepts (Seq a b) p (u @ v) cs cs2"
| acc_AltL: "accepts a p w cs cs1 \<Longrightarrow> accepts (Alt a b) p w cs cs1"
| acc_AltR: "accepts b p w cs cs1 \<Longrightarrow> accepts (Alt a b) p w cs cs1"
| acc_RepDone: "hi = Some 0 \<Longrightarrow> accepts (Rep lo hi r) p [] cs cs"
| acc_RepSkip: "lo = 0 \<Longrightarrow> accepts (Rep lo hi r) p [] cs cs"
| acc_RepStep: "hi \<noteq> Some 0
            \<Longrightarrow> accepts r p u (filter (\<lambda>(n, w). n \<notin> set (groupsOf r)) cs) cs1
            \<Longrightarrow> accepts (Rep (lo - 1) (map_option (\<lambda>k. k - 1) hi) r) (lastChar p u) v cs1 cs2
            \<Longrightarrow> accepts (Rep lo hi r) p (u @ v) cs cs2"
| acc_Group: "accepts r p w cs cs1 \<Longrightarrow> accepts (Group n r) p w cs ((n, w) # cs1)"

definition steps :: "regex \<Rightarrow> state \<Rightarrow> state \<Rightarrow> bool" where
  \<comment> \<open>the matcher can get from the state \<open>x\<close> to the state \<open>y\<close> by matching \<open>r\<close>\<close>
  "steps r x y = (\<exists>w. rest x = w @ rest y \<and> endIndex y = endIndex x + length w
       \<and> prev y = lastChar (prev x) w \<and> accepts r (prev x) w (captures x) (captures y))"

fun minLen :: "regex \<Rightarrow> nat" where
  \<comment> \<open>a lower bound on the length of a match\<close>
  "minLen (Chr cl) = 1"
| "minLen (Seq a b) = minLen a + minLen b"
| "minLen (Alt a b) = min (minLen a) (minLen b)"
| "minLen (Rep lo hi r) = (if lo = 0 \<or> hi = Some 0 then 0 else minLen r)"
| "minLen (Group n r) = minLen r"
| "minLen r = 0"

fun mustGroups :: "regex \<Rightarrow> nat list" where
  \<comment> \<open>groups that are set after every match\<close>
  "mustGroups (Seq a b) = filter (\<lambda>n. n \<notin> set (groupsOf b)) (mustGroups a) @ mustGroups b"
| "mustGroups (Alt a b) = filter (\<lambda>n. n \<in> set (mustGroups b)) (mustGroups a)"
| "mustGroups (Group n r) = n # mustGroups r"
| "mustGroups r = []"

definition prevAt :: "string \<Rightarrow> nat \<Rightarrow> char option" where
  \<comment> \<open>the character before the index \<open>i\<close>\<close>
  "prevAt s i = (if i = 0 then None else Some (s ! (i - 1)))"

definition atPos :: "string \<Rightarrow> nat \<Rightarrow> state" where
  \<comment> \<open>the state in which a match attempt starts at the index \<open>i\<close> of \<open>s\<close>\<close>
  "atPos s i = \<lparr>rest = drop i s, prev = prevAt s i, endIndex = i, captures = []\<rparr>"

definition matchAt :: "regex \<Rightarrow> string \<Rightarrow> nat \<Rightarrow> rmatch \<Rightarrow> bool" where
  \<comment> \<open>\<open>m\<close> is a match of \<open>re\<close> in \<open>s\<close> that starts at the index \<open>j\<close>\<close>
  "matchAt re s j m = (\<exists>w cs. j + length w \<le> length s \<and> take (length w) (drop j s) = w
       \<and> accepts re (prevAt s j) w [] cs
       \<and> m = \<lparr>index = j, matched = w, groups = cs, after = atPos s (j + length w)\<rparr>)"

definition inOrder :: "nat \<Rightarrow> rmatch list \<Rightarrow> bool" where
  \<comment> \<open>the matches lie one after the other, without overlap, from the index \<open>i\<close> on\<close>
  "inOrder i ms = (sorted_wrt (\<lambda>m1 m2. index m1 + length (matched m1) \<le> index m2) ms
       \<and> (\<forall>m\<in>set ms. i \<le> index m))"


definition braceDepth :: "string \<Rightarrow> int" where
  \<comment> \<open>the opening braces of a text minus its closing braces\<close>
  "braceDepth t = int (length (filter (\<lambda>ch. ch = CHR ''{'') t)) - int (length (filter (\<lambda>ch. ch = CHR ''}'') t))"

definition depthAt :: "string \<Rightarrow> nat \<Rightarrow> nat \<Rightarrow> int" where
  \<comment> \<open>the nesting depth after the characters at the indices \<open>b\<close> to \<open>j\<close>\<close>
  "depthAt source b j = braceDepth (slice source b (Suc j))"


section \<open>Sample inputs\<close>

text \<open>
  Concrete file systems and manifests on which the theorems below are instantiated.
  \<open>sampleJoin\<close> joins a directory and a file name the way the runtime does when the
  directory needs no normalising.
\<close>

definition sampleJoin :: "string \<Rightarrow> string \<Rightarrow> string" where
  "sampleJoin dir file = dir @ ''/'' @ file"

definition emptyEnv :: env where
  \<comment> \<open>no file can be read, no path can be probed\<close>
  "emptyEnv = \<lparr>
     join = sampleJoin,
     JSON_parse = (\<lambda>s. None),
     readFile = (\<lambda>p. None),
     access = (\<lambda>p. False)\<rparr>"

definition twoConfigsEnv :: env where
  \<comment> \<open>a jest and a vitest config file side by side, and nothing else\<close>
  "twoConfigsEnv = \<lparr>
     join = sampleJoin,
     JSON_parse = (\<lambda>s. None),
     readFile = (\<lambda>p. None),
     access = (\<lambda>p. p = ''/proj/src/jest.config.js'' \<or> p = ''/proj/src/vitest.config.ts'')\<rparr>"







definition mochaText :: string where
  \<comment> \<open>\<open>{"devDependencies":{"mocha":"^10"}}\<close>\<close>
  "mochaText = [CHR ''{'', CHR 0x22] @ ''devDependencies'' @ [CHR 0x22, CHR '':'', CHR ''{'', CHR 0x22]
     @ ''mocha'' @ [CHR 0x22, CHR '':'', CHR 0x22] @ ''^10'' @ [CHR 0x22, CHR ''}'', CHR ''}'']"

definition mochaPkg :: json where
  "mochaPkg = JObj [(''devDependencies'', JObj [(''mocha'', JStr ''^10'')])]"

definition mochaEnv :: env where
  \<comment> \<open>the tree \<open>proj/src/app.js\<close>, \<open>proj/package.json\<close>\<close>
  "mochaEnv = \<lparr>
     join = sampleJoin,
     JSON_parse = (\<lambda>s. if s = mochaText then Some mochaPkg else None),
     readFile = (\<lambda>p. if p = ''proj/package.json'' then Some mochaText else None),
     access = (\<lambda>p. False)\<rparr>"




definition closedClassText :: string where
  \<comment> \<open>a class that is closed, with a function after it\<close>
  "closedClassText = ''export class A { m() {} } function g() {}''"

definition unclosedClassText :: string where
  \<comment> \<open>the same without the closing brace of the class\<close>
  "unclosedClassText = ''export class A { m() { function g() {}''"

definition unclosedEnv :: env where
  \<comment> \<open>a file system that holds the unclosed class as \<open>/proj/a.js\<close>\<close>
  "unclosedEnv = \<lparr>join = sampleJoin,
                  JSON_parse = (\<lambda>s. None),
                  readFile = (\<lambda>p. if p = ''/proj/a.js'' then Some unclosedClassText else None),
                  access = (\<lambda>p. False)\<rparr>"

definition stackClassText :: string where
  \<comment> \<open>a class with three methods, the first of which holds an \<open>if\<close> statement\<close>
  "stackClassText =
     ''export class Stack {'' @ [CHR 0x0A]
     @ ''  push(x) { if (x) { this.items.push(x) } }'' @ [CHR 0x0A]
     @ ''  async load(id) { return id }'' @ [CHR 0x0A]
     @ ''  static create() { return new Stack() }'' @ [CHR 0x0A]
     @ ''}'' @ [CHR 0x0A]"


section \<open>The matcher only finds what the pattern matches\<close>

lemma lastChar_append: "lastChar (lastChar p u) v = lastChar p (u @ v)"
  by (simp add: lastChar_def)

lemma steps_refl_Empty: "steps Empty x x"
  by (auto simp add: steps_def lastChar_def intro: accepts.intros)

lemma matcher_sound:
  "matcher r x c = Some z \<Longrightarrow> \<exists>y. steps r x y \<and> c y = Some z"
proof (induction r x c arbitrary: z rule: matcher.induct)
  case (1 cl x c)
  then obtain ch t where xt: "rest x = ch # t" and cl: "inClass cl ch"
    and c: "c \<lparr>rest = t, prev = Some ch, endIndex = endIndex x + 1, captures = captures x\<rparr> = Some z"
    by (auto simp add: matcher.simps split: list.splits if_splits)
  have "steps (Chr cl) x \<lparr>rest = t, prev = Some ch, endIndex = endIndex x + 1, captures = captures x\<rparr>"
    unfolding steps_def
    by (rule exI [of _ "[ch]"]) (simp add: xt lastChar_def acc_Chr [OF cl])
  then show ?case using c by blast
next
  case (2 x c)
  then have c: "c x = Some z" and p: "prev x = None \<or> (\<exists>ch. prev x = Some ch \<and> isLineTerminator ch)"
    by (auto simp add: matcher.simps split: option.splits if_splits)
  have "accepts LineStart (prev x) [] (captures x) (captures x)"
    using p by (auto intro: accepts.intros)
  then have "steps LineStart x x"
    unfolding steps_def by (intro exI [of _ "[]"]) (simp add: lastChar_def)
  then show ?case using c by blast
next
  case (3 x c)
  then have "c x = Some z" by (simp add: matcher.simps)
  then show ?case using steps_refl_Empty by blast
next
  case (4 a b x c)
  from "4.prems" have "matcher a x (\<lambda>y. matcher b y c) = Some z"
    by (simp add: matcher.simps)
  from "4.IH"(2) [OF this] obtain y1 where s1: "steps a x y1" and m: "matcher b y1 c = Some z"
    by blast
  from "4.IH"(1) [OF m] obtain y2 where s2: "steps b y1 y2" and c: "c y2 = Some z"
    by blast
  obtain u where u: "rest x = u @ rest y1" "endIndex y1 = endIndex x + length u"
      "prev y1 = lastChar (prev x) u" "accepts a (prev x) u (captures x) (captures y1)"
    using s1 unfolding steps_def by blast
  obtain v where v: "rest y1 = v @ rest y2" "endIndex y2 = endIndex y1 + length v"
      "prev y2 = lastChar (prev y1) v" "accepts b (prev y1) v (captures y1) (captures y2)"
    using s2 unfolding steps_def by blast
  have "accepts (Seq a b) (prev x) (u @ v) (captures x) (captures y2)"
    using u(4) v(4) by (simp add: u(3) acc_Seq)
  then have "steps (Seq a b) x y2"
    unfolding steps_def
    by (intro exI [of _ "u @ v"]) (simp add: u v lastChar_append)
  then show ?case using c by blast
next
  case (5 a b x c)
  show ?case
  proof (cases "matcher a x c")
    case None
    then have "matcher b x c = Some z" using "5.prems" by (simp add: matcher.simps)
    from "5.IH"(2) [OF None this] obtain y where "steps b x y" and c: "c y = Some z" by blast
    then have "steps (Alt a b) x y"
      unfolding steps_def by (blast intro: acc_AltR)
    then show ?thesis using c by blast
  next
    case (Some z')
    then have "matcher a x c = Some z" using "5.prems" by (simp add: matcher.simps)
    from "5.IH"(1) [OF this] obtain y where "steps a x y" and c: "c y = Some z" by blast
    then have "steps (Alt a b) x y"
      unfolding steps_def by (blast intro: acc_AltL)
    then show ?thesis using c by blast
  qed
next
  case (6 lo hi r x c)
  define d where "d = (\<lambda>y. if lo = 0 \<and> \<not> length (rest y) < length (rest x) then None
                     else matcher (Rep (lo - 1) (map_option (\<lambda>k. k - 1) hi) r) y c)"
  define xr where "xr = x\<lparr>captures := filter (\<lambda>(n, w). n \<notin> set (groupsOf r)) (captures x)\<rparr>"
  show ?case
  proof (cases "hi = Some 0")
    case True
    then have c: "c x = Some z" using "6.prems" by (simp add: matcher.simps)
    have "accepts (Rep lo hi r) (prev x) [] (captures x) (captures x)"
      using True by (rule acc_RepDone)
    then have "steps (Rep lo hi r) x x"
      unfolding steps_def by (intro exI [of _ "[]"]) (simp add: lastChar_def)
    then show ?thesis using c by blast
  next
    case False
    have unfold: "matcher (Rep lo hi r) x c
        = (if lo \<noteq> 0 then matcher r xr d
           else (case matcher r xr d of Some z \<Rightarrow> Some z | None \<Rightarrow> c x))"
      using False by (simp add: matcher.simps d_def xr_def Let_def)
    have through: "\<exists>y. steps (Rep lo hi r) x y \<and> c y = Some z" if m: "matcher r xr d = Some z"
    proof -
      have "\<exists>y. steps r xr y \<and> d y = Some z"
      proof (cases "lo = 0")
        case True
        show ?thesis using "6.IH"(3) [OF False d_def xr_def _ m] True by simp
      next
        case False2: False
        show ?thesis using "6.IH"(2) [OF False d_def xr_def False2 m] .
      qed
      then obtain y1 where s1: "steps r xr y1" and dy: "d y1 = Some z" by blast
      have guard: "\<not> (lo = 0 \<and> \<not> length (rest y1) < length (rest x))"
        using dy by (auto simp add: d_def split: if_splits)
      then have m2: "matcher (Rep (lo - 1) (map_option (\<lambda>k. k - 1) hi) r) y1 c = Some z"
        using dy by (simp add: d_def split: if_splits)
      from "6.IH"(1) [OF False guard m2]
      obtain y2 where s2: "steps (Rep (lo - 1) (map_option (\<lambda>k. k - 1) hi) r) y1 y2"
        and c: "c y2 = Some z" by blast
      obtain u where u: "rest xr = u @ rest y1" "endIndex y1 = endIndex xr + length u"
          "prev y1 = lastChar (prev xr) u" "accepts r (prev xr) u (captures xr) (captures y1)"
        using s1 unfolding steps_def by blast
      obtain v where v: "rest y1 = v @ rest y2" "endIndex y2 = endIndex y1 + length v"
          "prev y2 = lastChar (prev y1) v"
          "accepts (Rep (lo - 1) (map_option (\<lambda>k. k - 1) hi) r) (prev y1) v (captures y1) (captures y2)"
        using s2 unfolding steps_def by blast
      have "accepts (Rep lo hi r) (prev x) (u @ v) (captures x) (captures y2)"
        using False u(4) v(4) by (simp add: u(3) xr_def acc_RepStep)
      then have "steps (Rep lo hi r) x y2"
        unfolding steps_def
        using u v by (intro exI [of _ "u @ v"]) (simp add: xr_def lastChar_append)
      then show ?thesis using c by blast
    qed
    show ?thesis
    proof (cases "matcher r xr d")
      case None
      then have lo: "lo = 0" and c: "c x = Some z"
        using "6.prems" unfold by (auto split: if_splits)
      have "accepts (Rep lo hi r) (prev x) [] (captures x) (captures x)"
        using lo by (rule acc_RepSkip)
      then have "steps (Rep lo hi r) x x"
        unfolding steps_def by (intro exI [of _ "[]"]) (simp add: lastChar_def)
      then show ?thesis using c by blast
    next
      case (Some z')
      then have "matcher r xr d = Some z"
        using "6.prems" unfold by (auto split: if_splits)
      then show ?thesis by (rule through)
    qed
  qed
next
  case (7 n r x c)
  from "7.prems" have "matcher r x (\<lambda>y. c (y\<lparr>captures := (n, take (endIndex y - endIndex x) (rest x)) # captures y\<rparr>)) = Some z"
    by (simp add: matcher.simps)
  from "7.IH" [OF this] obtain y1 where s1: "steps r x y1"
    and c: "c (y1\<lparr>captures := (n, take (endIndex y1 - endIndex x) (rest x)) # captures y1\<rparr>) = Some z"
    by blast
  obtain w where w: "rest x = w @ rest y1" "endIndex y1 = endIndex x + length w"
      "prev y1 = lastChar (prev x) w" "accepts r (prev x) w (captures x) (captures y1)"
    using s1 unfolding steps_def by blast
  have t: "take (endIndex y1 - endIndex x) (rest x) = w"
    by (simp add: w(1,2))
  have "accepts (Group n r) (prev x) w (captures x) ((n, w) # captures y1)"
    using w(4) by (rule acc_Group)
  then have "steps (Group n r) x (y1\<lparr>captures := (n, w) # captures y1\<rparr>)"
    unfolding steps_def
    using w by (intro exI [of _ w]) simp
  then show ?case using c t by auto
qed

lemma accepts_minLen: "accepts r p w cs cs1 \<Longrightarrow> minLen r \<le> length w"
  by (induction rule: accepts.induct) auto

lemma map_of_filter_notin:
  "n \<notin> G \<Longrightarrow> map_of (filter (\<lambda>(k, w). k \<notin> G) cs) n = map_of cs n"
  by (induction cs) auto

lemma accepts_groups:
  "accepts r p w cs cs1 \<Longrightarrow>
     (\<forall>n. n \<notin> set (groupsOf r) \<longrightarrow> map_of cs1 n = map_of cs n)
     \<and> (\<forall>n\<in>set (mustGroups r). map_of cs1 n \<noteq> None)"
proof (induction rule: accepts.induct)
  case (acc_RepStep hi r p u cs cs1 lo v cs2)
  then show ?case by (simp add: map_of_filter_notin)
qed auto

lemma accepts_no_groups:
  "accepts r p w cs cs1 \<Longrightarrow> groupsOf r = [] \<Longrightarrow> cs1 = cs"
  by (induction rule: accepts.induct) auto

lemma atPos_0: "atPos s 0 = \<lparr>rest = s, prev = None, endIndex = 0, captures = []\<rparr>"
  by (simp add: atPos_def prevAt_def)

lemma atPos_sel:
  "rest (atPos s i) = drop i s" "prev (atPos s i) = prevAt s i"
  "endIndex (atPos s i) = i" "captures (atPos s i) = []"
  by (simp_all add: atPos_def)

lemma atPos_Suc:
  assumes "i < length s"
  shows "drop i s = s ! i # drop (Suc i) s"
    and "\<lparr>rest = drop (Suc i) s, prev = Some (s ! i), endIndex = Suc i, captures = []\<rparr>
           = atPos s (Suc i)"
  using assms by (simp_all add: atPos_def prevAt_def Cons_nth_drop_Suc)

lemma atPos_end: "length s \<le> i \<Longrightarrow> rest (atPos s i) = []"
  by (simp add: atPos_def)

lemma steps_atPos:
  assumes "steps re (atPos s j) y" and "j \<le> length s"
  shows "\<exists>w. j + length w \<le> length s \<and> take (length w) (drop j s) = w
           \<and> accepts re (prevAt s j) w [] (captures y)
           \<and> endIndex y = j + length w
           \<and> y\<lparr>captures := []\<rparr> = atPos s (j + length w)"
proof -
  obtain w where w: "drop j s = w @ rest y" "endIndex y = j + length w"
      "prev y = lastChar (prevAt s j) w" "accepts re (prevAt s j) w [] (captures y)"
    using assms(1) unfolding steps_def atPos_def by auto
  have len: "j + length w \<le> length s"
  proof -
    have "length (drop j s) = length w + length (rest y)" by (simp add: w(1))
    then show ?thesis using assms(2) by simp
  qed
  have tk: "take (length w) (drop j s) = w" by (simp add: w(1))
  have r: "rest y = drop (j + length w) s"
  proof -
    have "drop (length w) (drop j s) = rest y" by (simp add: w(1))
    then show ?thesis by (simp add: add.commute)
  qed
  have p: "prev y = prevAt s (j + length w)"
  proof (cases "w = []")
    case True
    then show ?thesis by (simp add: w(3) lastChar_def)
  next
    case False
    then have "last w = w ! (length w - 1)" by (rule last_conv_nth)
    also have "\<dots> = take (length w) (drop j s) ! (length w - 1)" by (simp add: tk)
    also have "\<dots> = s ! (j + (length w - 1))"
      using False len by simp
    also have "j + (length w - 1) = j + length w - 1"
      using False by (cases w) simp_all
    finally show ?thesis using False by (simp add: w(3) lastChar_def prevAt_def)
  qed
  have "y\<lparr>captures := []\<rparr> = atPos s (j + length w)"
    by (simp add: atPos_def r p w(2))
  then show ?thesis using len tk w(2,4) by blast
qed

lemma scan_atPos:
  "i \<le> length s \<Longrightarrow> scan re (atPos s i) = Some m \<Longrightarrow> \<exists>j. i \<le> j \<and> j \<le> length s \<and> matchAt re s j m"
proof (induction "length s - i" arbitrary: i)
  case 0
  then have i: "i = length s" by simp
  show ?case
  proof (cases "matcher re (atPos s i) Some")
    case None
    then have "scan re (atPos s i) = None"
      by (subst scan.simps) (simp add: atPos_sel i)
    then show ?thesis using "0.prems" by simp
  next
    case (Some y)
    then have m: "m = \<lparr>index = endIndex (atPos s i),
                         matched = take (endIndex y - endIndex (atPos s i)) (rest (atPos s i)),
                         groups = captures y, after = y\<lparr>captures := []\<rparr>\<rparr>"
      using "0.prems"(2) by (subst (asm) scan.simps) simp
    obtain y' where st: "steps re (atPos s i) y'" and "Some y' = Some y"
      using matcher_sound [OF Some] by auto
    then have st: "steps re (atPos s i) y" by simp
    from steps_atPos [OF st "0.prems"(1)] obtain w where
      w: "i + length w \<le> length s" "take (length w) (drop i s) = w"
         "accepts re (prevAt s i) w [] (captures y)" "endIndex y = i + length w"
         "y\<lparr>captures := []\<rparr> = atPos s (i + length w)"
      by blast
    have "matchAt re s i m"
      unfolding matchAt_def
      using w by (intro exI [of _ w] exI [of _ "captures y"]) (simp add: m atPos_def)
    then show ?thesis using "0.prems"(1) by blast
  qed
next
  case (Suc k)
  then have lt: "i < length s" by simp
  show ?case
  proof (cases "matcher re (atPos s i) Some")
    case None
    then have "scan re (atPos s i) = scan re (atPos s (Suc i))"
      by (subst scan.simps) (simp add: atPos_sel atPos_Suc [OF lt])
    then have "scan re (atPos s (Suc i)) = Some m" using Suc.prems(2) by simp
    moreover have "k = length s - Suc i" using Suc.hyps(2) by simp
    moreover have "Suc i \<le> length s" using lt by simp
    ultimately obtain j where "Suc i \<le> j" "j \<le> length s" "matchAt re s j m"
      using Suc.hyps(1) by blast
    then show ?thesis by (intro exI [of _ j]) simp
  next
    case (Some y)
    then have m: "m = \<lparr>index = endIndex (atPos s i),
                         matched = take (endIndex y - endIndex (atPos s i)) (rest (atPos s i)),
                         groups = captures y, after = y\<lparr>captures := []\<rparr>\<rparr>"
      using Suc.prems(2) by (subst (asm) scan.simps) simp
    obtain y' where st: "steps re (atPos s i) y'" and "Some y' = Some y"
      using matcher_sound [OF Some] by auto
    then have st: "steps re (atPos s i) y" by simp
    from steps_atPos [OF st Suc.prems(1)] obtain w where
      w: "i + length w \<le> length s" "take (length w) (drop i s) = w"
         "accepts re (prevAt s i) w [] (captures y)" "endIndex y = i + length w"
         "y\<lparr>captures := []\<rparr> = atPos s (i + length w)"
      by blast
    have "matchAt re s i m"
      unfolding matchAt_def
      using w by (intro exI [of _ w] exI [of _ "captures y"]) (simp add: m atPos_def)
    then show ?thesis using Suc.prems(1) by blast
  qed
qed

lemma matchAt_after:
  assumes "matchAt re s j m"
  shows "after m = atPos s (index m + length (matched m))" and "index m = j"
    and "index m + length (matched m) \<le> length s"
    and "minLen re \<le> length (matched m)"
  using assms accepts_minLen unfolding matchAt_def by auto

lemma execLoop_atPos:
  "i \<le> length s \<Longrightarrow> execLoop re (atPos s i) = Some ms \<Longrightarrow>
     (\<forall>m\<in>set ms. \<exists>j. matchAt re s j m) \<and> inOrder i ms"
proof (induction "length s - i" arbitrary: i ms rule: less_induct)
  case less
  show ?case
  proof (cases "scan re (atPos s i)")
    case None
    then have "ms = []" using less.prems(2) by (subst (asm) execLoop.simps) simp
    then show ?thesis by (simp add: inOrder_def)
  next
    case (Some m)
    obtain j where j: "i \<le> j" "j \<le> length s" "matchAt re s j m"
      using scan_atPos [OF less.prems(1) Some] by blast
    note a = matchAt_after [OF j(3)]
    define i' where "i' = index m + length (matched m)"
    have guard: "length (rest (after m)) < length (rest (atPos s i))"
      and rest: "map_option ((#) m) (execLoop re (after m)) = Some ms"
      using less.prems(2) Some by (subst (asm) execLoop.simps; simp split: if_splits)+
    obtain ms' where ms': "execLoop re (atPos s i') = Some ms'" and ms: "ms = m # ms'"
      using rest by (auto simp add: a(1) i'_def)
    have lt: "i < i'" and le: "i' \<le> length s"
      using guard a(3) by (simp_all add: a(1) i'_def atPos_def)
    have "length s - i' < length s - i" using lt le by simp
    from less.hyps [OF this le ms'] have IH: "\<forall>m\<in>set ms'. \<exists>j. matchAt re s j m" "inOrder i' ms'"
      by simp_all
    have "inOrder i (m # ms')"
      using IH(2) j(1) a(2) lt unfolding inOrder_def i'_def by auto
    then show ?thesis using IH(1) j(3) ms by auto
  qed
qed

lemma execLoop_total:
  "0 < minLen re \<Longrightarrow> i \<le> length s \<Longrightarrow> \<exists>ms. execLoop re (atPos s i) = Some ms"
proof (induction "length s - i" arbitrary: i rule: less_induct)
  case less
  show ?case
  proof (cases "scan re (atPos s i)")
    case None
    then show ?thesis by (subst execLoop.simps) simp
  next
    case (Some m)
    obtain j where j: "i \<le> j" "j \<le> length s" "matchAt re s j m"
      using scan_atPos [OF less.prems(2) Some] by blast
    note a = matchAt_after [OF j(3)]
    define i' where "i' = index m + length (matched m)"
    have lt: "i < i'" and le: "i' \<le> length s"
      using a(2,3,4) j(1) less.prems(1) by (simp_all add: i'_def)
    have "length s - i' < length s - i" using lt le by simp
    from less.hyps [OF this less.prems(1) le] obtain ms' where "execLoop re (atPos s i') = Some ms'"
      by blast
    moreover have "length (rest (after m)) < length (rest (atPos s i))"
      using lt le by (simp add: a(1) atPos_def flip: i'_def)
    ultimately show ?thesis
      by (subst execLoop.simps) (simp add: Some a(1) flip: i'_def)
  qed
qed

lemma matchAll_total: "0 < minLen re \<Longrightarrow> \<exists>ms. matchAll re s = Some ms"
  using execLoop_total [of re 0 s] by (simp add: matchAll_def atPos_0)

lemma matchAll_sound:
  "matchAll re s = Some ms \<Longrightarrow> (\<forall>m\<in>set ms. \<exists>j. matchAt re s j m) \<and> inOrder 0 ms"
  using execLoop_atPos [of 0 s re ms] by (simp add: matchAll_def atPos_0)


section \<open>The extractors always hand back a list\<close>

lemma those_map_total:
  "\<forall>m\<in>set ms. build m \<noteq> None \<Longrightarrow> \<exists>xs. those (map build ms) = Some xs"
  by (induction ms) auto

lemma matchAt_groups:
  assumes "matchAt re s j m" and "n \<in> set (mustGroups re)"
  shows "\<exists>w. grp m n = Some w"
proof -
  obtain w cs where "accepts re (prevAt s j) w [] cs" and "groups m = cs"
    using assms(1) unfolding matchAt_def by auto
  then have "map_of (groups m) n \<noteq> None"
    using accepts_groups assms(2) by blast
  then show ?thesis by (simp add: grp_def)
qed

lemma pass_total:
  assumes "0 < minLen re" and "\<And>j m. matchAt re s j m \<Longrightarrow> build m \<noteq> None"
  shows "\<exists>xs. pass re build s = Some xs"
proof -
  obtain ms where ms: "matchAll re s = Some ms"
    using matchAll_total [OF assms(1)] by blast
  have "\<forall>m\<in>set ms. build m \<noteq> None"
    using matchAll_sound [OF ms] assms(2) by blast
  then obtain xs where "those (map build ms) = Some xs"
    using those_map_total by blast
  then show ?thesis by (simp add: pass_def ms)
qed

lemmas regex_shape = seq_def lit_def plus_def star_def opt_def

lemma methodRegex_shape: "0 < minLen methodRegex" "mustGroups methodRegex = [1, 2]"
  by (simp_all add: methodRegex_def regex_shape)

lemma namedFuncRegex_shape: "0 < minLen namedFuncRegex" "mustGroups namedFuncRegex = [1, 2]"
  by (simp_all add: namedFuncRegex_def regex_shape)

lemma arrowFuncRegex_shape: "0 < minLen arrowFuncRegex" "mustGroups arrowFuncRegex = [1, 2]"
  by (simp_all add: arrowFuncRegex_def regex_shape)

lemma classRegex_shape: "0 < minLen classRegex" "mustGroups classRegex = [1]"
  by (simp_all add: classRegex_def regex_shape)

lemma defaultFuncRegex_shape: "0 < minLen defaultFuncRegex" "mustGroups defaultFuncRegex = [1, 2]"
  by (simp_all add: defaultFuncRegex_def regex_shape)

lemma pyFuncRegex_shape: "0 < minLen pyFuncRegex" "mustGroups pyFuncRegex = [1, 2]"
  by (simp_all add: pyFuncRegex_def regex_shape)

lemma pyClassRegex_shape: "0 < minLen pyClassRegex" "mustGroups pyClassRegex = [1]"
  by (simp_all add: pyClassRegex_def regex_shape)

lemma jsImportRegex_shape: "0 < minLen jsImportRegex" "mustGroups jsImportRegex = [1]"
  by (simp_all add: jsImportRegex_def regex_shape)

lemma pyImportRegex_shape: "0 < minLen pyImportRegex"
  by (simp add: pyImportRegex_def regex_shape)

lemma collectMethods_total:
  "\<forall>m\<in>set ms. (\<exists>w. grp m 1 = Some w) \<and> (\<exists>w. grp m 2 = Some w) \<Longrightarrow> \<exists>r. collectMethods ms = Some r"
  by (induction ms) auto

lemma extractClassMethods_total: "\<exists>ms. extractClassMethods source classStart = Some ms"
proof (cases "indexOfFrom source CHR ''{'' classStart")
  case None
  then show ?thesis by (simp add: extractClassMethods_def)
next
  case (Some braceStart)
  obtain ms where ms: "matchAll methodRegex
      (slice source (braceStart + 1) (classBodyEnd source braceStart)) = Some ms"
    using matchAll_total [OF methodRegex_shape(1)] by blast
  have "\<forall>m\<in>set ms. (\<exists>w. grp m 1 = Some w) \<and> (\<exists>w. grp m 2 = Some w)"
    using matchAll_sound [OF ms] matchAt_groups [where re = methodRegex]
    by (fastforce simp add: methodRegex_shape(2))
  then obtain r where "collectMethods ms = Some r"
    using collectMethods_total by blast
  then show ?thesis
    using ms by (simp add: extractClassMethods_def Some Let_def)
qed

lemma functionExport_total:
  assumes "matchAt re s j m" and "mustGroups re = [1, 2]"
  shows "functionExport window dflt source m \<noteq> None"
proof -
  obtain g1 g2 where "grp m 1 = Some g1" and "grp m 2 = Some g2"
    using matchAt_groups [OF assms(1), of 1] matchAt_groups [OF assms(1), of 2] assms(2) by auto
  then show ?thesis by (simp add: functionExport_def Let_def)
qed

lemma classExport_total:
  assumes "matchAt classRegex s j m"
  shows "classExport source m \<noteq> None"
proof -
  obtain g1 where "grp m 1 = Some g1"
    using matchAt_groups [OF assms, of 1] by (auto simp add: classRegex_shape(2))
  moreover obtain ms where "extractClassMethods source (index m) = Some ms"
    using extractClassMethods_total by blast
  ultimately show ?thesis by (simp add: classExport_def)
qed

lemma extractJSExports_total: "\<exists>es. extractJSExports source = Some es"
proof -
  have "\<exists>xs. pass namedFuncRegex (functionExport 25 False source) source = Some xs"
    by (rule pass_total [OF namedFuncRegex_shape(1)])
       (rule functionExport_total [OF _ namedFuncRegex_shape(2)])
  then obtain e1 where 1: "pass namedFuncRegex (functionExport 25 False source) source = Some e1"
    by blast
  have "\<exists>xs. pass arrowFuncRegex (functionExport 45 False source) source = Some xs"
    by (rule pass_total [OF arrowFuncRegex_shape(1)])
       (rule functionExport_total [OF _ arrowFuncRegex_shape(2)])
  then obtain e2 where 2: "pass arrowFuncRegex (functionExport 45 False source) source = Some e2"
    by blast
  have "\<exists>xs. pass classRegex (classExport source) source = Some xs"
    by (rule pass_total [OF classRegex_shape(1)]) (rule classExport_total)
  then obtain e3 where 3: "pass classRegex (classExport source) source = Some e3"
    by blast
  have "\<exists>xs. pass defaultFuncRegex (functionExport 35 True source) source = Some xs"
    by (rule pass_total [OF defaultFuncRegex_shape(1)])
       (rule functionExport_total [OF _ defaultFuncRegex_shape(2)])
  then obtain e4 where 4: "pass defaultFuncRegex (functionExport 35 True source) source = Some e4"
    by blast
  show ?thesis by (simp add: extractJSExports_def 1 2 3 4)
qed


section \<open>The class body\<close>

lemma findChar_None: "findChar c t i = None \<longleftrightarrow> c \<notin> set t"
  by (induction t arbitrary: i) auto

lemma findChar_Some:
  "findChar c t i = Some k \<longleftrightarrow>
     (i \<le> k \<and> k < i + length t \<and> t ! (k - i) = c \<and> (\<forall>j. j < k - i \<longrightarrow> t ! j \<noteq> c))"
proof (induction t arbitrary: i)
  case Nil
  show ?case by simp
next
  case (Cons a t)
  show ?case
  proof (cases "a = c")
    case True
    show ?thesis
    proof (cases "k = i")
      case k: True
      then show ?thesis using True by simp
    next
      case k: False
      have "\<not> (i \<le> k \<and> (\<forall>j. j < k - i \<longrightarrow> (a # t) ! j \<noteq> c))"
      proof
        assume h: "i \<le> k \<and> (\<forall>j. j < k - i \<longrightarrow> (a # t) ! j \<noteq> c)"
        then have "0 < k - i" using k by simp
        then have "(a # t) ! 0 \<noteq> c" using h by blast
        then show False using True by simp
      qed
      then show ?thesis using True k by auto
    qed
  next
    case False
    have "findChar c (a # t) i = findChar c t (Suc i)" using False by simp
    also have "\<dots> = Some k \<longleftrightarrow>
        (Suc i \<le> k \<and> k < Suc i + length t \<and> t ! (k - Suc i) = c \<and> (\<forall>j. j < k - Suc i \<longrightarrow> t ! j \<noteq> c))"
      by (rule Cons.IH)
    also have "\<dots> \<longleftrightarrow>
        (i \<le> k \<and> k < i + length (a # t) \<and> (a # t) ! (k - i) = c \<and> (\<forall>j. j < k - i \<longrightarrow> (a # t) ! j \<noteq> c))"
    proof (cases "k \<le> i")
      case True
      then show ?thesis using False by (cases "k = i") auto
    next
      case gt: False
      then obtain n where n: "k - i = Suc n" "k - Suc i = n"
        by (cases "k - i") auto
      show ?thesis
        using gt False by (auto simp add: n less_Suc_eq_0_disj nth_Cons')
    qed
    finally show ?thesis .
  qed
qed

lemma indexOfFrom_None:
  "indexOfFrom s c k = None \<longleftrightarrow> (\<forall>i. k \<le> i \<and> i < length s \<longrightarrow> s ! i \<noteq> c)"
proof -
  have "c \<notin> set (drop k s) \<longleftrightarrow> (\<forall>i. k \<le> i \<and> i < length s \<longrightarrow> s ! i \<noteq> c)"
  proof
    assume a: "c \<notin> set (drop k s)"
    show "\<forall>i. k \<le> i \<and> i < length s \<longrightarrow> s ! i \<noteq> c"
    proof (intro allI impI)
      fix i assume i: "k \<le> i \<and> i < length s"
      then have "drop k s ! (i - k) = s ! i" by simp
      moreover have "i - k < length (drop k s)" using i by auto
      ultimately show "s ! i \<noteq> c" using a nth_mem by metis
    qed
  next
    assume a: "\<forall>i. k \<le> i \<and> i < length s \<longrightarrow> s ! i \<noteq> c"
    show "c \<notin> set (drop k s)"
    proof
      assume "c \<in> set (drop k s)"
      then obtain j where j: "j < length (drop k s)" "drop k s ! j = c"
        by (auto simp add: in_set_conv_nth)
      then have "s ! (k + j) = c" "k + j < length s" by auto
      then show False using a by (metis le_add1)
    qed
  qed
  then show ?thesis by (simp add: indexOfFrom_def findChar_None)
qed

lemma indexOfFrom_Some:
  "indexOfFrom s c k = Some b \<longleftrightarrow>
     (k \<le> b \<and> b < length s \<and> s ! b = c \<and> (\<forall>i. k \<le> i \<and> i < b \<longrightarrow> s ! i \<noteq> c))"
proof (cases "k \<le> b \<and> b < length s")
  case False
  then show ?thesis by (auto simp add: indexOfFrom_def findChar_Some)
next
  case True
  then have nth: "drop k s ! (b - k) = s ! b" by simp
  have "(\<forall>j. j < b - k \<longrightarrow> drop k s ! j \<noteq> c) \<longleftrightarrow> (\<forall>i. k \<le> i \<and> i < b \<longrightarrow> s ! i \<noteq> c)"
  proof
    assume a: "\<forall>j. j < b - k \<longrightarrow> drop k s ! j \<noteq> c"
    show "\<forall>i. k \<le> i \<and> i < b \<longrightarrow> s ! i \<noteq> c"
    proof (intro allI impI)
      fix i assume i: "k \<le> i \<and> i < b"
      then have "i - k < b - k" by auto
      then have "drop k s ! (i - k) \<noteq> c" using a by blast
      moreover have "drop k s ! (i - k) = s ! i" using i True by simp
      ultimately show "s ! i \<noteq> c" by simp
    qed
  next
    assume a: "\<forall>i. k \<le> i \<and> i < b \<longrightarrow> s ! i \<noteq> c"
    show "\<forall>j. j < b - k \<longrightarrow> drop k s ! j \<noteq> c"
    proof (intro allI impI)
      fix j assume j: "j < b - k"
      then have "s ! (k + j) \<noteq> c" using a by auto
      moreover have "drop k s ! j = s ! (k + j)" using j True by simp
      ultimately show "drop k s ! j \<noteq> c" by simp
    qed
  qed
  then show ?thesis
    using True nth by (auto simp add: indexOfFrom_def findChar_Some)
qed

lemma braceDepth_Cons:
  "braceDepth (ch # t) = (if ch = CHR ''{'' then 1 else if ch = CHR ''}'' then - 1 else 0) + braceDepth t"
  by (simp add: braceDepth_def)

lemma braceDepth_Nil: "braceDepth [] = 0"
  by (simp add: braceDepth_def)

lemma scanBraces_spec:
  assumes "1 \<le> d" and "len = i + length t"
  shows "i \<le> scanBraces t i d len \<and> scanBraces t i d len \<le> len
     \<and> (\<forall>k. k < scanBraces t i d len - i \<longrightarrow> 0 < d + braceDepth (take (Suc k) t))
     \<and> (scanBraces t i d len < len \<longrightarrow> d + braceDepth (take (Suc (scanBraces t i d len - i)) t) = 0)"
  using assms
proof (induction t arbitrary: i d)
  case Nil
  then show ?case by simp
next
  case (Cons ch t)
  define d' where "d' = d + (if ch = CHR ''{'' then 1 else if ch = CHR ''}'' then - 1 else 0)"
  show ?case
  proof (cases "ch = CHR ''}'' \<and> d' = 0")
    case True
    then have ch: "ch = CHR ''}''" and d: "d = 1"
      by (auto simp add: d'_def)
    have "scanBraces (ch # t) i d len = i"
      by (simp add: ch d Let_def)
    then show ?thesis
      using Cons.prems by (simp add: ch d braceDepth_Cons braceDepth_Nil)
  next
    case False
    have e: "scanBraces (ch # t) i d len = scanBraces t (Suc i) d' len"
      using False by (auto simp add: d'_def Let_def)
    have d1: "1 \<le> d'" using False Cons.prems(1) by (auto simp add: d'_def split: if_splits)
    have l: "len = Suc i + length t" using Cons.prems(2) by simp
    note IH = Cons.IH [OF d1 l]
    define e' where "e' = scanBraces t (Suc i) d' len"
    have 1: "Suc i \<le> e'" "e' \<le> len"
      and 2: "\<And>k. k < e' - Suc i \<Longrightarrow> 0 < d' + braceDepth (take (Suc k) t)"
      and 3: "e' < len \<Longrightarrow> d' + braceDepth (take (Suc (e' - Suc i)) t) = 0"
      using IH by (simp_all add: e'_def)
    have 4: "d + braceDepth (ch # u) = d' + braceDepth u" for u
      by (simp add: d'_def braceDepth_Cons)
    have "0 < d + braceDepth (take (Suc k) (ch # t))" if k: "k < e' - i" for k
    proof (cases k)
      case 0
      then show ?thesis using d1 by (simp add: 4 braceDepth_Nil)
    next
      case (Suc n)
      then have "n < e' - Suc i" using k by simp
      then show ?thesis using 2 Suc by (simp add: 4)
    qed
    moreover have "d + braceDepth (take (Suc (e' - i)) (ch # t)) = 0" if "e' < len"
    proof -
      have "e' - i = Suc (e' - Suc i)" using 1 by simp
      then show ?thesis using 3 [OF that] by (simp add: 4)
    qed
    ultimately show ?thesis
      unfolding e e'_def [symmetric] using 1 by simp
  qed
qed

lemma classBodyEnd_spec:
  assumes "b < length source" and "source ! b = CHR ''{''"
  shows "b < classBodyEnd source b \<and> classBodyEnd source b \<le> length source
     \<and> (\<forall>j. b \<le> j \<and> j < classBodyEnd source b \<longrightarrow> 0 < depthAt source b j)
     \<and> (classBodyEnd source b < length source \<longrightarrow> depthAt source b (classBodyEnd source b) = 0)"
proof -
  define t where "t = drop (Suc b) source"
  have dr: "drop b source = CHR ''{'' # t"
    using assms by (simp add: t_def flip: Cons_nth_drop_Suc)
  define e where "e = scanBraces t (Suc b) 1 (length source)"
  have ce: "classBodyEnd source b = e"
    by (simp add: classBodyEnd_def dr e_def Let_def)
  have len: "length source = Suc b + length t"
    using assms(1) by (simp add: t_def)
  have sp: "Suc b \<le> e" "e \<le> length source"
    "\<And>k. k < e - Suc b \<Longrightarrow> 0 < 1 + braceDepth (take (Suc k) t)"
    "e < length source \<Longrightarrow> 1 + braceDepth (take (Suc (e - Suc b)) t) = 0"
    using scanBraces_spec [of 1 "length source" "Suc b" t] len by (simp_all add: e_def)
  have depth: "depthAt source b j = 1 + braceDepth (take (j - b) t)" if "b \<le> j" for j
  proof -
    have "slice source b (Suc j) = take (Suc (j - b)) (drop b source)"
      using that by (simp add: slice_def Suc_diff_le)
    then show ?thesis by (simp add: depthAt_def dr braceDepth_Cons)
  qed
  have "0 < depthAt source b j" if j: "b \<le> j \<and> j < e" for j
  proof (cases "j = b")
    case True
    then show ?thesis by (simp add: depth braceDepth_Nil)
  next
    case False
    then obtain k where k: "j - b = Suc k" "k < e - Suc b"
      using j by (cases "j - b") auto
    then show ?thesis using sp(3) j by (simp add: depth)
  qed
  moreover have "depthAt source b e = 0" if "e < length source"
  proof -
    have "e - b = Suc (e - Suc b)" using sp(1) by simp
    then show ?thesis using sp(4) [OF that] sp(1) by (simp add: depth)
  qed
  ultimately show ?thesis using sp(1,2) by (simp add: ce)
qed


section \<open>Running the matcher on a given text\<close>

text \<open>
  The equations of the matcher, the scan and the loop, for a state that is written out.
  They unfold a call only where the state is known, so rewriting with them runs the
  pattern on a concrete text and stops.
\<close>

lemma matcher_eval:
  "matcher (Chr cl) \<lparr>rest = [], prev = p, endIndex = i, captures = cs\<rparr> c = None"
  "matcher (Chr cl) \<lparr>rest = ch # t, prev = p, endIndex = i, captures = cs\<rparr> c =
     (if inClass cl ch then c \<lparr>rest = t, prev = Some ch, endIndex = i + 1, captures = cs\<rparr> else None)"
  "matcher LineStart \<lparr>rest = s, prev = None, endIndex = i, captures = cs\<rparr> c =
     c \<lparr>rest = s, prev = None, endIndex = i, captures = cs\<rparr>"
  "matcher LineStart \<lparr>rest = s, prev = Some ch, endIndex = i, captures = cs\<rparr> c =
     (if isLineTerminator ch then c \<lparr>rest = s, prev = Some ch, endIndex = i, captures = cs\<rparr> else None)"
  "matcher Empty \<lparr>rest = s, prev = p, endIndex = i, captures = cs\<rparr> c =
     c \<lparr>rest = s, prev = p, endIndex = i, captures = cs\<rparr>"
  "matcher (Seq a b) \<lparr>rest = s, prev = p, endIndex = i, captures = cs\<rparr> c =
     matcher a \<lparr>rest = s, prev = p, endIndex = i, captures = cs\<rparr> (\<lambda>y. matcher b y c)"
  "matcher (Alt a b) \<lparr>rest = s, prev = p, endIndex = i, captures = cs\<rparr> c =
     (case matcher a \<lparr>rest = s, prev = p, endIndex = i, captures = cs\<rparr> c of
        Some z \<Rightarrow> Some z
      | None \<Rightarrow> matcher b \<lparr>rest = s, prev = p, endIndex = i, captures = cs\<rparr> c)"
  "matcher (Group n r) \<lparr>rest = s, prev = p, endIndex = i, captures = cs\<rparr> c =
     matcher r \<lparr>rest = s, prev = p, endIndex = i, captures = cs\<rparr>
       (\<lambda>y. c (y\<lparr>captures := (n, take (endIndex y - i) s) # captures y\<rparr>))"
  "matcher (Rep lo hi r) \<lparr>rest = s, prev = p, endIndex = i, captures = cs\<rparr> c =
     (if hi = Some 0 then c \<lparr>rest = s, prev = p, endIndex = i, captures = cs\<rparr>
      else if lo \<noteq> 0 then
        matcher r \<lparr>rest = s, prev = p, endIndex = i,
                   captures = filter (\<lambda>(n, w). n \<notin> set (groupsOf r)) cs\<rparr>
          (\<lambda>y. if lo = 0 \<and> \<not> length (rest y) < length s then None
               else matcher (Rep (lo - 1) (map_option (\<lambda>k. k - 1) hi) r) y c)
      else (case matcher r \<lparr>rest = s, prev = p, endIndex = i,
                              captures = filter (\<lambda>(n, w). n \<notin> set (groupsOf r)) cs\<rparr>
                   (\<lambda>y. if lo = 0 \<and> \<not> length (rest y) < length s then None
                        else matcher (Rep (lo - 1) (map_option (\<lambda>k. k - 1) hi) r) y c) of
              Some z \<Rightarrow> Some z
            | None \<Rightarrow> c \<lparr>rest = s, prev = p, endIndex = i, captures = cs\<rparr>))"
  by (simp_all add: matcher.simps Let_def)

lemma scan_eval:
  "scan re \<lparr>rest = s, prev = p, endIndex = i, captures = cs\<rparr> =
     (case matcher re \<lparr>rest = s, prev = p, endIndex = i, captures = cs\<rparr> Some of
        Some y \<Rightarrow> Some \<lparr>index = i, matched = take (endIndex y - i) s,
                         groups = captures y, after = y\<lparr>captures := []\<rparr>\<rparr>
      | None \<Rightarrow>
          (case s of
             [] \<Rightarrow> None
           | ch # t \<Rightarrow> scan re \<lparr>rest = t, prev = Some ch, endIndex = i + 1, captures = []\<rparr>))"
  by (subst scan.simps) (simp split: option.split list.split)

lemma execLoop_eval:
  "execLoop re \<lparr>rest = s, prev = p, endIndex = i, captures = cs\<rparr> =
     (case scan re \<lparr>rest = s, prev = p, endIndex = i, captures = cs\<rparr> of
        None \<Rightarrow> Some []
      | Some m \<Rightarrow>
          if length (rest (after m)) < length s
          then map_option ((#) m) (execLoop re (after m))
          else None)"
  by (subst execLoop.simps) (simp split: option.split)

lemmas regex_defs = seq_def lit_def plus_def star_def opt_def
  isWhiteSpace_def isLineTerminator_def isWordChar_def

lemmas regex_eval = matcher_eval scan_eval execLoop_eval matchAll_def grp_def pass_def

lemmas js_export_defs = extractJSExports_def namedFuncRegex_def arrowFuncRegex_def classRegex_def
  defaultFuncRegex_def functionExport_def classExport_def orNull_def slice_def trim_def

lemmas class_method_defs = extractClassMethods_def methodRegex_def indexOfFrom_def classBodyEnd_def
  controlKeywords_def slice_def trim_def


section \<open>Named function exports\<close>

lemma export_add:
  "extractJSExports ''export function add(a, b) {}''
     = Some [FunctionExport ''add'' ''add(a, b)'' False False]"
  by (simp add: js_export_defs regex_defs regex_eval)

lemma export_fetchUser:
  "extractJSExports ''export async function fetchUser(id) {}''
     = Some [FunctionExport ''fetchUser'' ''fetchUser(id)'' True False]"
  by (simp add: js_export_defs regex_defs regex_eval)

lemma those_map_list_all2:
  "those (map f xs) = Some ys \<Longrightarrow> list_all2 (\<lambda>x y. f x = Some y) xs ys"
proof (induction xs arbitrary: ys)
  case Nil
  then show ?case by simp
next
  case (Cons x xs)
  then obtain y ys' where "f x = Some y" and "those (map f xs) = Some ys'" and "ys = y # ys'"
    by (auto split: option.splits)
  then show ?case using Cons.IH by simp
qed

lemma pass_list_all2:
  assumes "pass re build s = Some xs"
  shows "\<exists>ms. matchAll re s = Some ms \<and> list_all2 (\<lambda>m x. build m = Some x) ms xs"
proof -
  obtain ms where ms: "matchAll re s = Some ms" and "those (map build ms) = Some xs"
    using assms by (auto simp add: pass_def split: Option.bind_splits)
  then show ?thesis using those_map_list_all2 by blast
qed

lemma functionExport_Some:
  assumes "functionExport window False source m = Some e"
  shows "isFunction e \<and> grp m 1 = Some (name e)
     \<and> (\<exists>g2. grp m 2 = Some g2 \<and> signature e = name e @ ''('' @ trim g2 @ '')'')
     \<and> async e = includes_str (slice source (index m) (index m + window)) ''async''
     \<and> \<not> isDefault e"
  using assms by (auto simp add: functionExport_def Let_def split: option.splits)

lemma extractJSExports_first_pass:
  "\<exists>ms fs others.
     matchAll namedFuncRegex source = Some ms
     \<and> extractJSExports source = Some (fs @ others)
     \<and> list_all2 (\<lambda>m e. isFunction e \<and> grp m 1 = Some (name e)
            \<and> (\<exists>g2. grp m 2 = Some g2 \<and> signature e = name e @ ''('' @ trim g2 @ '')'')
            \<and> async e = includes_str (slice source (index m) (index m + 25)) ''async''
            \<and> \<not> isDefault e) ms fs"
proof -
  obtain es where es: "extractJSExports source = Some es"
    using extractJSExports_total by blast
  then obtain e1 e2 e3 e4 where
    1: "pass namedFuncRegex (functionExport 25 False source) source = Some e1"
    and e: "es = e1 @ e2 @ e3 @ e4"
    by (auto simp add: extractJSExports_def split: Option.bind_splits)
  obtain ms where ms: "matchAll namedFuncRegex source = Some ms"
    and la: "list_all2 (\<lambda>m x. functionExport 25 False source m = Some x) ms e1"
    using pass_list_all2 [OF 1] by blast
  have "list_all2 (\<lambda>m e. isFunction e \<and> grp m 1 = Some (name e)
            \<and> (\<exists>g2. grp m 2 = Some g2 \<and> signature e = name e @ ''('' @ trim g2 @ '')'')
            \<and> async e = includes_str (slice source (index m) (index m + 25)) ''async''
            \<and> \<not> isDefault e) ms e1"
    using la by (rule list_all2_mono) (rule functionExport_Some)
  then show ?thesis using ms es e by blast
qed

lemma export_marker_in_parameters:
  "extractJSExports ''export function f(async) {}''
     = Some [FunctionExport ''f'' ''f(async)'' True False]"
  by (simp add: js_export_defs regex_defs regex_eval)

lemma export_marker_at_window_end:
  "extractJSExports ''export              async function g() {}''
     = Some [FunctionExport ''g'' ''g()'' True False]"
  by (simp add: js_export_defs regex_defs regex_eval)

lemma export_marker_past_window_end:
  "extractJSExports ''export               async function g() {}''
     = Some [FunctionExport ''g'' ''g()'' False False]"
  by (simp add: js_export_defs regex_defs regex_eval)

lemma export_marker_before_match:
  "extractJSExports ''/* async */ export function h() {}''
     = Some [FunctionExport ''h'' ''h()'' False False]"
  by (simp add: js_export_defs regex_defs regex_eval)

text \<open>
  C1. On the text \<open>export function add(a, b) {}\<close> the export extractor returns exactly one
  symbol: a function named \<open>add\<close> with the signature \<open>add(a, b)\<close> that is not async. On
  \<open>export async function fetchUser(id) {}\<close> the function symbol is async. For every source
  text the list that the extractor returns starts with one function symbol for each match of
  the pattern for named function exports, in the order of the matches; the name of the symbol
  is the first group of its match, and its async flag is the presence of \<open>async\<close> in the 25
  characters of the source that start at the index of its match. So the flag is set by an
  \<open>async\<close> that ends with the 25th character (also by one among the parameters) and not by
  one that ends with the 26th or that stands before the match.
\<close>

theorem C1_named_function_export:
  "extractJSExports ''export function add(a, b) {}''
     = Some [FunctionExport ''add'' ''add(a, b)'' False False]
   \<and> extractJSExports ''export async function fetchUser(id) {}''
     = Some [FunctionExport ''fetchUser'' ''fetchUser(id)'' True False]
   \<and> (\<forall>source. \<exists>ms fs others.
         matchAll namedFuncRegex source = Some ms
         \<and> extractJSExports source = Some (fs @ others)
         \<and> list_all2 (\<lambda>m e. isFunction e \<and> grp m 1 = Some (name e)
                \<and> (\<exists>g2. grp m 2 = Some g2 \<and> signature e = name e @ ''('' @ trim g2 @ '')'')
                \<and> async e = includes_str (slice source (index m) (index m + 25)) ''async''
                \<and> \<not> isDefault e) ms fs)
   \<and> extractJSExports ''export function f(async) {}''
     = Some [FunctionExport ''f'' ''f(async)'' True False]
   \<and> extractJSExports ''export              async function g() {}''
     = Some [FunctionExport ''g'' ''g()'' True False]
   \<and> extractJSExports ''export               async function g() {}''
     = Some [FunctionExport ''g'' ''g()'' False False]
   \<and> extractJSExports ''/* async */ export function h() {}''
     = Some [FunctionExport ''h'' ''h()'' False False]"
  using export_add export_fetchUser extractJSExports_first_pass export_marker_in_parameters
    export_marker_at_window_end export_marker_past_window_end export_marker_before_match
  by blast


section \<open>Language classification\<close>

lemma extnameLoop_eval:
  "extnameLoop (code # front)
      \<lparr>startDot = sd, startPart = sp, endPos = ep, matchedSlash = ms, preDotState = pd\<rparr> =
     (if code = CHR ''/''
      then (if ms
            then extnameLoop front
                   \<lparr>startDot = sd, startPart = sp, endPos = ep, matchedSlash = ms, preDotState = pd\<rparr>
            else \<lparr>startDot = sd, startPart = int (length front) + 1, endPos = ep,
                  matchedSlash = ms, preDotState = pd\<rparr>)
      else extnameLoop front
             \<lparr>startDot = (if code = CHR ''.'' \<and> sd = - 1 then int (length front) else sd),
              startPart = sp,
              endPos = (if ep = - 1 then int (length front) + 1 else ep),
              matchedSlash = (if ep = - 1 then False else ms),
              preDotState = (if code = CHR ''.'' then (if sd = - 1 then pd else 1)
                             else if sd \<noteq> - 1 then - 1 else pd)\<rparr>)"
  by (simp add: Let_def extnameLoop.simps(2))

lemmas extname_eval = extname_def slice_def extnameLoop_eval

lemmas toLowerCase_eval = toLowerCase_def toLowerChar_def upperCaseChars_def lowerCaseChars_def

lemma detectLanguage_table:
  "detectLanguage p =
     (let e = toLowerCase (extname p)
      in if e = ''.js'' \<or> e = ''.jsx'' \<or> e = ''.mjs'' \<or> e = ''.cjs'' then Some JavaScript
         else if e = ''.ts'' \<or> e = ''.tsx'' \<or> e = ''.mts'' then Some TypeScript
         else if e = ''.py'' then Some Python
         else None)"
  by (simp add: detectLanguage_def LANGUAGE_MAP_def Let_def)

lemma extname_App_TSX: "extname ''App.TSX'' = ''.TSX''"
  by (simp add: extname_eval)

lemma extname_style_css: "extname ''style.css'' = ''.css''"
  by (simp add: extname_eval)

lemma detectLanguage_App_TSX: "detectLanguage ''App.TSX'' = Some TypeScript"
  by (simp add: detectLanguage_def LANGUAGE_MAP_def extname_App_TSX toLowerCase_eval)

lemma detectLanguage_style_css: "detectLanguage ''style.css'' = None"
  by (simp add: detectLanguage_def LANGUAGE_MAP_def extname_style_css toLowerCase_eval)

text \<open>
  C9. The classifier is a function of the lower-cased extension of the path alone: \<open>.js\<close>,
  \<open>.jsx\<close>, \<open>.mjs\<close> and \<open>.cjs\<close> give javascript, \<open>.ts\<close>, \<open>.tsx\<close> and \<open>.mts\<close> give typescript,
  \<open>.py\<close> gives python, and every other extension gives none. In particular \<open>App.TSX\<close> is
  typescript and \<open>style.css\<close> is none.
\<close>

theorem C9_classify:
  "(\<forall>p. detectLanguage p =
      (let e = toLowerCase (extname p)
       in if e = ''.js'' \<or> e = ''.jsx'' \<or> e = ''.mjs'' \<or> e = ''.cjs'' then Some JavaScript
          else if e = ''.ts'' \<or> e = ''.tsx'' \<or> e = ''.mts'' then Some TypeScript
          else if e = ''.py'' then Some Python
          else None))
   \<and> detectLanguage ''App.TSX'' = Some TypeScript
   \<and> detectLanguage ''style.css'' = None"
  using detectLanguage_table detectLanguage_App_TSX detectLanguage_style_css by blast


section \<open>Unsupported file types\<close>

lemma extname_parser_rb: "extname ''lib/parser.rb'' = ''.rb''"
  by (simp add: extname_eval)

lemma detectLanguage_parser_rb: "detectLanguage ''lib/parser.rb'' = None"
  by (simp add: detectLanguage_def LANGUAGE_MAP_def extname_parser_rb toLowerCase_eval)

text \<open>
  C6. When the lower-cased extension of the path is not in the table of languages, the
  analysis fails with the error that names the extension of the path, and its trace of
  file system calls is empty: nothing is read, neither the source file nor anything else,
  and no analysis record is produced.
\<close>

theorem C6_unsupported_file_type:
  assumes "toLowerCase (extname filePath) \<notin> fst ` set LANGUAGE_MAP"
  shows "analyzeFile e filePath
           = (Inl (Error (''Unsupported file type: '' @ extname filePath)), [])"
proof -
  have "map_of LANGUAGE_MAP (toLowerCase (extname filePath)) = None"
    using assms by (simp add: map_of_eq_None_iff)
  then have "detectLanguage filePath = None"
    by (simp add: detectLanguage_def)
  then show ?thesis
    by (simp add: analyzeFile_def)
qed

theorem C6_unsupported_file_type_witness:
  "toLowerCase (extname ''lib/parser.rb'') \<notin> fst ` set LANGUAGE_MAP
   \<and> (\<forall>e. analyzeFile e ''lib/parser.rb'' = (Inl (Error ''Unsupported file type: .rb''), []))"
proof -
  have h: "toLowerCase (extname ''lib/parser.rb'') \<notin> fst ` set LANGUAGE_MAP"
    by (simp add: extname_parser_rb toLowerCase_eval LANGUAGE_MAP_def)
  show ?thesis
    using h C6_unsupported_file_type [OF h] by (simp add: extname_parser_rb)
qed

section \<open>Substrings\<close>








section \<open>The merged dependencies and their serialisation\<close>







lemma quoteJSON_jest: "includes_str (toLowerCase (quoteJSON ''jest'')) ''jest''"
  by (simp add: quoteJSON_def escapeChar_def toLowerCase_def toLowerChar_def upperCaseChars_def lowerCaseChars_def)




section \<open>The search for a framework\<close>

lemma probeFiles_fst:
  "fst (probeFiles e d fw files) = (if \<exists>f\<in>set files. access e (join e d f) then Some fw else None)"
  by (induction files) (auto simp add: Let_def split: prod.split)

lemma probeConfigs_fst:
  "fst (probeConfigs e d tbl)
     = map_option fst (find (\<lambda>(fw, files). \<exists>f\<in>set files. access e (join e d f)) tbl)"
proof (induction tbl)
  case Nil
  show ?case by simp
next
  case (Cons a tbl)
  obtain fw files where a: "a = (fw, files)" by (cases a)
  obtain r t where pf: "probeFiles e d fw files = (r, t)" by (cases "probeFiles e d fw files")
  have r: "r = (if \<exists>f\<in>set files. access e (join e d f) then Some fw else None)"
    using probeFiles_fst [of e d fw files] pf by simp
  obtain r2 t2 where pc: "probeConfigs e d tbl = (r2, t2)" by (cases "probeConfigs e d tbl")
  show ?case
    using Cons.IH r by (cases r) (auto simp add: a pf pc split: if_splits)
qed

lemma inDirectory_fst:
  "fst (inDirectory e d) =
     (case fromPackageJson e d of
        Some f \<Rightarrow> Some f
      | None \<Rightarrow>
          (case fromPyproject e d of
             Some f \<Rightarrow> Some f
           | None \<Rightarrow> fst (probeConfigs e d FRAMEWORK_CONFIG_FILES)))"
  by (simp add: inDirectory_def Let_def split: option.split prod.split)

lemma searchLoop_fst_Cons:
  "fst (searchLoop e (d # ds)) =
     (case fst (inDirectory e d) of Some f \<Rightarrow> Some f | None \<Rightarrow> fst (searchLoop e ds))"
  by (cases "inDirectory e d") (simp split: option.split prod.split)

lemma searchLoop_none:
  "(\<forall>d\<in>set ds. fst (inDirectory e d) = None) \<Longrightarrow> fst (searchLoop e ds) = None"
  by (induction ds) (simp_all add: searchLoop_fst_Cons del: searchLoop.simps(2))

lemma detectFramework_first:
  "fst (inDirectory e (dirname filePath)) = Some f \<Longrightarrow> fst (detectFramework e filePath) = Some f"
  by (simp add: detectFramework_def searchDirs_def Let_def searchLoop_fst_Cons del: searchLoop.simps(2))

lemma walkUp_length: "length (walkUp k d) \<le> k"
  by (induction k arbitrary: d) (simp_all add: Let_def)

lemma walkUp_chain:
  "i < length (walkUp k d) \<Longrightarrow>
     (d # walkUp k d) ! Suc i = dirname ((d # walkUp k d) ! i)
     \<and> (d # walkUp k d) ! Suc i \<noteq> (d # walkUp k d) ! i"
proof (induction k arbitrary: d i)
  case 0
  then show ?case by simp
next
  case (Suc k)
  show ?case
  proof (cases "dirname d = d")
    case True
    then show ?thesis using Suc.prems by (simp add: Let_def)
  next
    case False
    show ?thesis
    proof (cases i)
      case 0
      then show ?thesis using False by (simp add: Let_def)
    next
      case (Suc j)
      then have "j < length (walkUp k (dirname d))"
        using Suc.prems False by (simp add: Let_def)
      from Suc.IH [OF this] show ?thesis
        using False Suc by (auto simp add: Let_def)
    qed
  qed
qed

lemma walkUp_stop:
  "length (walkUp k d) < k \<Longrightarrow> dirname (last (d # walkUp k d)) = last (d # walkUp k d)"
proof (induction k arbitrary: d)
  case 0
  then show ?case by simp
next
  case (Suc k)
  show ?case
  proof (cases "dirname d = d")
    case True
    then show ?thesis by (simp add: Let_def)
  next
    case False
    then have "length (walkUp k (dirname d)) < k"
      using Suc.prems by (simp add: Let_def)
    from Suc.IH [OF this] show ?thesis
      using False by (simp add: Let_def)
  qed
qed

lemma inDirectory_none:
  assumes "fromPackageJson e d = None" and "fromPyproject e d = None"
    and "\<forall>(fw, files)\<in>set FRAMEWORK_CONFIG_FILES. \<forall>f\<in>set files. \<not> access e (join e d f)"
  shows "fst (inDirectory e d) = None"
proof -
  have "find (\<lambda>(fw, files). \<exists>f\<in>set files. access e (join e d f)) FRAMEWORK_CONFIG_FILES = None"
    using assms(3) by (auto simp add: find_None_iff)
  then show ?thesis
    by (simp add: inDirectory_fst probeConfigs_fst assms(1,2))
qed

lemma config_order:
  assumes "fromPackageJson e d = None" and "fromPyproject e d = None"
  shows "fst (inDirectory e d)
           = map_option fst
               (find (\<lambda>(fw, files). \<exists>f\<in>set files. access e (join e d f)) FRAMEWORK_CONFIG_FILES)"
  by (simp add: inDirectory_fst probeConfigs_fst assms)

lemma jest_config_first:
  assumes "fromPackageJson e d = None" and "fromPyproject e d = None"
    and "access e (join e d ''jest.config.js'')"
  shows "fst (inDirectory e d) = Some Jest"
  using assms(3) by (simp add: config_order [OF assms(1,2)] FRAMEWORK_CONFIG_FILES_def)

text \<open>
  C10. In a directory where neither the manifest nor the Python project file yields a
  framework, the result is the first entry of the table of config files, in the order jest,
  vitest, mocha, pytest, one of whose files exists. So a directory with both
  \<open>jest.config.js\<close> and \<open>vitest.config.ts\<close> yields jest, and the locator returns jest when
  that directory is the one that contains the file.
\<close>

theorem C10_config_files_jest_first:
  assumes "fromPackageJson e d = None" and "fromPyproject e d = None"
  shows "map fst FRAMEWORK_CONFIG_FILES = [Jest, Vitest, Mocha, Pytest]
    \<and> fst (inDirectory e d)
        = map_option fst
            (find (\<lambda>(fw, files). \<exists>f\<in>set files. access e (join e d f)) FRAMEWORK_CONFIG_FILES)
    \<and> (access e (join e d ''jest.config.js'') \<and> access e (join e d ''vitest.config.ts'')
         \<longrightarrow> fst (inDirectory e d) = Some Jest
             \<and> (d = dirname filePath \<longrightarrow> fst (detectFramework e filePath) = Some Jest))"
proof (intro conjI impI)
  show "map fst FRAMEWORK_CONFIG_FILES = [Jest, Vitest, Mocha, Pytest]"
    by (simp add: FRAMEWORK_CONFIG_FILES_def)
  show "fst (inDirectory e d)
        = map_option fst
            (find (\<lambda>(fw, files). \<exists>f\<in>set files. access e (join e d f)) FRAMEWORK_CONFIG_FILES)"
    using assms by (rule config_order)
next
  assume a: "access e (join e d ''jest.config.js'') \<and> access e (join e d ''vitest.config.ts'')"
  then show j: "fst (inDirectory e d) = Some Jest"
    using jest_config_first [OF assms] by blast
  assume "d = dirname filePath"
  then show "fst (detectFramework e filePath) = Some Jest"
    using j detectFramework_first by blast
qed

lemma dirname_proj_src_app: "dirname ''/proj/src/app.js'' = ''/proj/src''"
  by (simp add: dirname_def slice_def)

theorem C10_config_files_jest_first_witness:
  "fromPackageJson twoConfigsEnv ''/proj/src'' = None
   \<and> fromPyproject twoConfigsEnv ''/proj/src'' = None
   \<and> access twoConfigsEnv (join twoConfigsEnv ''/proj/src'' ''jest.config.js'')
   \<and> access twoConfigsEnv (join twoConfigsEnv ''/proj/src'' ''vitest.config.ts'')
   \<and> fst (detectFramework twoConfigsEnv ''/proj/src/app.js'') = Some Jest"
proof -
  have 1: "fromPackageJson twoConfigsEnv ''/proj/src'' = None"
    by (simp add: fromPackageJson_def twoConfigsEnv_def)
  have 2: "fromPyproject twoConfigsEnv ''/proj/src'' = None"
    by (simp add: fromPyproject_def twoConfigsEnv_def)
  have 3: "access twoConfigsEnv (join twoConfigsEnv ''/proj/src'' ''jest.config.js'')
      \<and> access twoConfigsEnv (join twoConfigsEnv ''/proj/src'' ''vitest.config.ts'')"
    by (simp add: twoConfigsEnv_def sampleJoin_def)
  show ?thesis
    using 1 2 3 C10_config_files_jest_first [OF 1 2, of "''/proj/src/app.js''"]
    by (simp add: dirname_proj_src_app)
qed


section \<open>The search list\<close>

lemma searchDirs_chain:
  assumes "Suc i < length (searchDirs p)"
  shows "searchDirs p ! Suc i = dirname (searchDirs p ! i) \<and> searchDirs p ! Suc i \<noteq> searchDirs p ! i"
proof -
  have "i < length (walkUp 4 (dirname p))"
    using assms by (simp add: searchDirs_def Let_def)
  from walkUp_chain [OF this] show ?thesis
    by (auto simp add: searchDirs_def Let_def)
qed

lemma searchDirs_stop:
  assumes "length (searchDirs p) < 5"
  shows "dirname (last (searchDirs p)) = last (searchDirs p)"
proof -
  have "length (walkUp 4 (dirname p)) < 4"
    using assms by (simp add: searchDirs_def Let_def)
  from walkUp_stop [OF this] show ?thesis
    by (simp add: searchDirs_def Let_def)
qed

lemma searchDirs_length: "length (searchDirs p) \<le> 5"
  using walkUp_length [of 4 "dirname p"] by (simp add: searchDirs_def Let_def)

lemma detectFramework_none:
  assumes "\<forall>d\<in>set (searchDirs p). fromPackageJson e d = None \<and> fromPyproject e d = None
              \<and> (\<forall>(fw, files)\<in>set FRAMEWORK_CONFIG_FILES. \<forall>f\<in>set files. \<not> access e (join e d f))"
  shows "fst (detectFramework e p) = None"
proof -
  have "\<forall>d\<in>set (searchDirs p). fst (inDirectory e d) = None"
    using assms inDirectory_none by blast
  then show ?thesis
    unfolding detectFramework_def by (rule searchLoop_none)
qed

lemma searchLoop_first_hit:
  "fst (searchLoop e ds)
     = (case find (\<lambda>d. fst (inDirectory e d) \<noteq> None) ds of
          None \<Rightarrow> None
        | Some d \<Rightarrow> fst (inDirectory e d))"
  by (induction ds) (auto simp add: searchLoop_fst_Cons simp del: searchLoop.simps(2))

lemma searchLoop_trace:
  "snd (searchLoop e ds)
     = concat (map (\<lambda>d. snd (inDirectory e d))
         (takeWhile (\<lambda>d. fst (inDirectory e d) = None) ds
          @ take 1 (dropWhile (\<lambda>d. fst (inDirectory e d) = None) ds)))"
proof (induction ds)
  case Nil
  show ?case by simp
next
  case (Cons d ds)
  obtain r t where rt: "inDirectory e d = (r, t)" by (cases "inDirectory e d")
  obtain r2 t2 where r2: "searchLoop e ds = (r2, t2)" by (cases "searchLoop e ds")
  show ?case
    using Cons.IH by (cases r) (simp_all add: rt r2)
qed

text \<open>
  C5. The search list starts with the directory that contains the file; every further
  entry is the parent of the entry before it and differs from it; there are at most 4 further
  entries, and the list is shorter only when the parent of its last entry is that entry
  itself. The locator goes through this list in its order: its result is the result of the
  first directory of the list that yields one, where a directory yields what its manifest
  gives, else what its Python project file gives, else the first framework of the table one
  of whose config files exists; and its file system calls are those of the directories of the
  list up to that one, and of no other directory. When no directory of the list yields a
  framework from its manifest or from its Python project file, and none of the config files
  exists in any of them, the locator returns unknown.
\<close>

theorem C5_search_list_and_unknown:
  "searchDirs p \<noteq> [] \<and> hd (searchDirs p) = dirname p \<and> length (searchDirs p) \<le> 1 + 4
   \<and> (\<forall>i. Suc i < length (searchDirs p) \<longrightarrow>
          searchDirs p ! Suc i = dirname (searchDirs p ! i) \<and> searchDirs p ! Suc i \<noteq> searchDirs p ! i)
   \<and> (length (searchDirs p) < 1 + 4 \<longrightarrow> dirname (last (searchDirs p)) = last (searchDirs p))
   \<and> ((\<forall>d\<in>set (searchDirs p). fromPackageJson e d = None \<and> fromPyproject e d = None
          \<and> (\<forall>(fw, files)\<in>set FRAMEWORK_CONFIG_FILES. \<forall>f\<in>set files. \<not> access e (join e d f)))
        \<longrightarrow> fst (detectFramework e p) = None)
   \<and> fst (detectFramework e p)
       = (case find (\<lambda>d. fst (inDirectory e d) \<noteq> None) (searchDirs p) of
            None \<Rightarrow> None
          | Some d \<Rightarrow> fst (inDirectory e d))
   \<and> snd (detectFramework e p)
       = concat (map (\<lambda>d. snd (inDirectory e d))
           (takeWhile (\<lambda>d. fst (inDirectory e d) = None) (searchDirs p)
            @ take 1 (dropWhile (\<lambda>d. fst (inDirectory e d) = None) (searchDirs p))))
   \<and> (\<forall>d. fst (inDirectory e d)
          = (case fromPackageJson e d of
               Some f \<Rightarrow> Some f
             | None \<Rightarrow>
                 (case fromPyproject e d of
                    Some f \<Rightarrow> Some f
                  | None \<Rightarrow>
                      map_option fst
                        (find (\<lambda>(fw, files). \<exists>f\<in>set files. access e (join e d f))
                           FRAMEWORK_CONFIG_FILES))))"
proof (intro conjI allI impI)
  show "searchDirs p \<noteq> []" by (simp add: searchDirs_def Let_def)
  show "hd (searchDirs p) = dirname p" by (simp add: searchDirs_def Let_def)
  show "length (searchDirs p) \<le> 1 + 4" using searchDirs_length [of p] by simp
  show "fst (detectFramework e p)
       = (case find (\<lambda>d. fst (inDirectory e d) \<noteq> None) (searchDirs p) of
            None \<Rightarrow> None
          | Some d \<Rightarrow> fst (inDirectory e d))"
    unfolding detectFramework_def by (rule searchLoop_first_hit)
  show "snd (detectFramework e p)
       = concat (map (\<lambda>d. snd (inDirectory e d))
           (takeWhile (\<lambda>d. fst (inDirectory e d) = None) (searchDirs p)
            @ take 1 (dropWhile (\<lambda>d. fst (inDirectory e d) = None) (searchDirs p))))"
    unfolding detectFramework_def by (rule searchLoop_trace)
next
  fix i assume "Suc i < length (searchDirs p)"
  then show "searchDirs p ! Suc i = dirname (searchDirs p ! i)"
    and "searchDirs p ! Suc i \<noteq> searchDirs p ! i"
    using searchDirs_chain by blast+
next
  assume "length (searchDirs p) < 1 + 4"
  then show "dirname (last (searchDirs p)) = last (searchDirs p)"
    using searchDirs_stop by simp
next
  assume "\<forall>d\<in>set (searchDirs p). fromPackageJson e d = None \<and> fromPyproject e d = None
          \<and> (\<forall>(fw, files)\<in>set FRAMEWORK_CONFIG_FILES. \<forall>f\<in>set files. \<not> access e (join e d f))"
  then show "fst (detectFramework e p) = None"
    by (rule detectFramework_none)
next
  fix d
  show "fst (inDirectory e d)
          = (case fromPackageJson e d of
               Some f \<Rightarrow> Some f
             | None \<Rightarrow>
                 (case fromPyproject e d of
                    Some f \<Rightarrow> Some f
                  | None \<Rightarrow>
                      map_option fst
                        (find (\<lambda>(fw, files). \<exists>f\<in>set files. access e (join e d f))
                           FRAMEWORK_CONFIG_FILES)))"
    by (simp add: inDirectory_fst probeConfigs_fst split: option.split)
qed

lemma searchDirs_proj_src_app: "searchDirs ''/proj/src/app.js'' = [''/proj/src'', ''/proj'', ''/'']"
  by (simp add: searchDirs_def dirname_def slice_def Let_def eval_nat_numeral)

lemma searchDirs_deep:
  "searchDirs ''/a/b/c/d/e/f/g.py'' = [''/a/b/c/d/e/f'', ''/a/b/c/d/e'', ''/a/b/c/d'', ''/a/b/c'', ''/a/b'']"
  by (simp add: searchDirs_def dirname_def slice_def Let_def eval_nat_numeral)

lemma searchDirs_relative: "searchDirs ''proj/src/app.js'' = [''proj/src'', ''proj'', ''.'']"
  by (simp add: searchDirs_def dirname_def slice_def Let_def eval_nat_numeral)

lemmas json_eval = ownProperties_def isArrayIndex_def isDigit_def readNat_def quoteJSON_def
  escapeChar_def getProperty_def orEmptyObject_def allDeps_def setProperty_def

lemma mocha_depsStr:
  "depsStr mochaPkg = [CHR ''{'', CHR 0x22] @ ''mocha'' @ [CHR 0x22, CHR '':'', CHR 0x22] @ ''^10'' @ [CHR 0x22, CHR ''}'']"
  by (simp add: depsStr_def mochaPkg_def json_eval toLowerCase_eval)

lemma mochaPkg_not_null: "mochaPkg \<noteq> JNull"
  by (simp add: mochaPkg_def)

lemma mocha_in_src: "fst (inDirectory mochaEnv ''proj/src'') = None"
  by (simp add: inDirectory_fst probeConfigs_fst FRAMEWORK_CONFIG_FILES_def
      fromPackageJson_def fromPyproject_def mochaEnv_def sampleJoin_def)

lemma mocha_in_proj: "fst (inDirectory mochaEnv ''proj'') = Some Mocha"
  by (simp add: inDirectory_fst fromPackageJson_def mochaEnv_def sampleJoin_def
      mocha_depsStr mochaPkg_not_null)

theorem C5_search_list_and_unknown_witness:
  "searchDirs ''/proj/src/app.js'' = [''/proj/src'', ''/proj'', ''/'']
   \<and> dirname ''/'' = ''/''
   \<and> searchDirs ''/a/b/c/d/e/f/g.py'' = [''/a/b/c/d/e/f'', ''/a/b/c/d/e'', ''/a/b/c/d'', ''/a/b/c'', ''/a/b'']
   \<and> fst (detectFramework emptyEnv ''/proj/src/app.js'') = None
   \<and> searchDirs ''proj/src/app.js'' = [''proj/src'', ''proj'', ''.'']
   \<and> fst (inDirectory mochaEnv ''proj/src'') = None
   \<and> fst (inDirectory mochaEnv ''proj'') = Some Mocha
   \<and> fst (detectFramework mochaEnv ''proj/src/app.js'') = Some Mocha"
proof -
  have h: "\<forall>d\<in>set (searchDirs ''/proj/src/app.js'').
             fromPackageJson emptyEnv d = None \<and> fromPyproject emptyEnv d = None
             \<and> (\<forall>(fw, files)\<in>set FRAMEWORK_CONFIG_FILES. \<forall>f\<in>set files. \<not> access emptyEnv (join emptyEnv d f))"
    by (simp add: fromPackageJson_def fromPyproject_def emptyEnv_def)
  have "length (searchDirs ''/proj/src/app.js'') < 1 + 4"
    by (simp add: searchDirs_proj_src_app)
  then have "dirname (last (searchDirs ''/proj/src/app.js'')) = last (searchDirs ''/proj/src/app.js'')"
    using C5_search_list_and_unknown [of "''/proj/src/app.js''" emptyEnv] by blast
  then have 1: "dirname ''/'' = ''/''"
    by (simp add: searchDirs_proj_src_app)
  have 2: "fst (detectFramework emptyEnv ''/proj/src/app.js'') = None"
    using h C5_search_list_and_unknown [of "''/proj/src/app.js''" emptyEnv] by blast
  have "fst (detectFramework mochaEnv ''proj/src/app.js'')
       = (case find (\<lambda>d. fst (inDirectory mochaEnv d) \<noteq> None) (searchDirs ''proj/src/app.js'') of
            None \<Rightarrow> None
          | Some d \<Rightarrow> fst (inDirectory mochaEnv d))"
    using C5_search_list_and_unknown [of "''proj/src/app.js''" mochaEnv] by blast
  then have 3: "fst (detectFramework mochaEnv ''proj/src/app.js'') = Some Mocha"
    by (simp add: searchDirs_relative mocha_in_src mocha_in_proj)
  show ?thesis
    using 1 2 3 by (simp add: searchDirs_proj_src_app searchDirs_deep searchDirs_relative
        mocha_in_src mocha_in_proj)
qed


section \<open>The manifest\<close>

lemma map_of_replace:
  "map_of (map (\<lambda>(k, v). if k = k0 then (k0, v0) else (k, v)) kvs) x
     = (if x = k0 \<and> x \<in> fst ` set kvs then Some v0 else map_of kvs x)"
proof (induction kvs)
  case Nil
  show ?case by simp
next
  case (Cons a kvs)
  obtain k v where a: "a = (k, v)" by (cases a)
  show ?case
    using Cons.IH by (cases "k = k0"; cases "x = k0"; simp add: a)
qed

lemma map_of_setProperty: "map_of (setProperty kvs kv) = (map_of kvs)(fst kv \<mapsto> snd kv)"
proof (rule ext)
  fix x
  obtain k0 v0 where kv: "kv = (k0, v0)" by (cases kv)
  show "map_of (setProperty kvs kv) x = ((map_of kvs)(fst kv \<mapsto> snd kv)) x"
  proof (cases "k0 \<in> fst ` set kvs")
    case True
    then show ?thesis
      by (simp add: setProperty_def kv map_of_replace)
  next
    case False
    then have "map_of kvs k0 = None"
      by (simp add: map_of_eq_None_iff)
    then show ?thesis
      using False by (auto simp add: setProperty_def kv map_add_def split: option.split)
  qed
qed

lemma map_of_foldl_setProperty:
  "map_of (foldl setProperty acc kvs) = map_of acc ++ map_of (rev kvs)"
proof (induction kvs arbitrary: acc)
  case Nil
  show ?case by simp
next
  case (Cons kv kvs)
  obtain k0 v0 where kv: "kv = (k0, v0)" by (cases kv)
  have "map_of (foldl setProperty acc (kv # kvs)) = map_of (setProperty acc kv) ++ map_of (rev kvs)"
    by (simp only: foldl_Cons Cons.IH)
  also have "\<dots> = (map_of acc ++ [k0 \<mapsto> v0]) ++ map_of (rev kvs)"
    by (simp only: map_of_setProperty kv fst_conv snd_conv map_add_upd map_add_empty)
  also have "\<dots> = map_of acc ++ ([k0 \<mapsto> v0] ++ map_of (rev kvs))"
    by (simp only: map_add_assoc)
  also have "[k0 \<mapsto> v0] ++ map_of (rev kvs) = map_of (rev (kv # kvs))"
    by (simp add: kv)
  finally show ?case .
qed

lemma allDeps_last_wins:
  "map_of (allDeps pkg)
     = map_of (rev (spreadProperties (orEmptyObject (getProperty pkg ''dependencies''))
                    @ spreadProperties (orEmptyObject (getProperty pkg ''devDependencies''))
                    @ spreadProperties (orEmptyObject (getProperty pkg ''scripts''))))"
  unfolding allDeps_def by (subst map_of_foldl_setProperty) simp



















section \<open>The end of a class body\<close>

lemma extractJSImports_total: "\<exists>ims. extractJSImports source = Some ims"
  unfolding extractJSImports_def
proof (rule pass_total [OF jsImportRegex_shape(1)])
  fix j m assume "matchAt jsImportRegex source j m"
  then show "grp m 1 \<noteq> None"
    using matchAt_groups [where re = jsImportRegex and n = 1] by (fastforce simp add: jsImportRegex_shape(2))
qed

lemma analyzeFile_js_returns:
  assumes "detectLanguage p = Some lang" and "lang \<noteq> Python" and "readFile e p = Some source"
  shows "\<exists>a. fst (analyzeFile e p) = Inr a"
proof -
  obtain es where es: "extractJSExports source = Some es" using extractJSExports_total by blast
  obtain ims where ims: "extractJSImports source = Some ims" using extractJSImports_total by blast
  have l: "lang = JavaScript \<or> lang = TypeScript" using assms(2) by (cases lang) simp_all
  have "extractAll lang source = Some (es, ims)"
    using l es ims by (auto simp add: extractAll_def)
  then show ?thesis
    using assms by (simp add: analyzeFile_def Let_def split: prod.split)
qed

lemma classBodyEnd_unbalanced:
  assumes "b < length source" and "source ! b = CHR ''{''"
    and "\<forall>j. b \<le> j \<and> j < length source \<longrightarrow> 0 < depthAt source b j"
  shows "classBodyEnd source b = length source"
proof (rule ccontr)
  assume "classBodyEnd source b \<noteq> length source"
  then have lt: "classBodyEnd source b < length source"
    using classBodyEnd_spec [OF assms(1,2)] by simp
  then have "depthAt source b (classBodyEnd source b) = 0"
    using classBodyEnd_spec [OF assms(1,2)] by blast
  moreover have "b \<le> classBodyEnd source b"
    using classBodyEnd_spec [OF assms(1,2)] by simp
  then have "0 < depthAt source b (classBodyEnd source b)"
    using assms(3) lt by blast
  ultimately show False by simp
qed

lemma braceDepth_snoc:
  "braceDepth (t @ [ch]) = braceDepth t + (if ch = CHR ''{'' then 1 else if ch = CHR ''}'' then - 1 else 0)"
  by (simp add: braceDepth_def)

lemma depthAt_Suc:
  assumes "b \<le> j" and "Suc j < length source"
  shows "depthAt source b (Suc j) = depthAt source b j
     + (if source ! Suc j = CHR ''{'' then 1 else if source ! Suc j = CHR ''}'' then - 1 else 0)"
proof -
  have "slice source b (Suc (Suc j)) = slice source b (Suc j) @ [source ! Suc j]"
    using assms by (simp add: slice_def Suc_diff_le take_Suc_conv_app_nth)
  then show ?thesis
    unfolding depthAt_def by (simp only: braceDepth_snoc)
qed

lemma classBodyEnd_closing:
  assumes "b < length source" and "source ! b = CHR ''{''" and "classBodyEnd source b < length source"
  shows "source ! classBodyEnd source b = CHR ''}''"
proof -
  note sp = classBodyEnd_spec [OF assms(1,2)]
  obtain j where j: "classBodyEnd source b = Suc j" and bj: "b \<le> j"
    using sp by (cases "classBodyEnd source b") auto
  have "0 < depthAt source b j" using sp j bj by simp
  moreover have "depthAt source b (Suc j) = 0" using sp assms(3) j by simp
  moreover note depthAt_Suc [OF bj] assms(3) j
  ultimately show ?thesis by (auto split: if_splits)
qed

text \<open>
  C2. Take any source text and any offset of a class declaration. When no \<open>{\<close> stands at or
  after the offset, the method scanner returns the empty list. Otherwise let \<open>b\<close> be the index
  of the first such \<open>{\<close>. The scan counts the depth from \<open>b\<close> on, one up for every \<open>{\<close> and one
  down for every \<open>}\<close>: the depth is positive at every index from \<open>b\<close> to before the end of the
  body; an end of the body before the end of the source is a \<open>}\<close> at which the depth is zero;
  and when the depth is positive up to the end of the source, the body ends with the source.
  The methods are those that the method pattern finds in the text between \<open>b\<close> and the end of
  the body. The scanner returns a list for every input, so does the export extractor that
  calls it, and so does the analysis of every JavaScript or TypeScript file that can be read.
\<close>

theorem C2_class_body:
  "(indexOfFrom source CHR ''{'' classStart = None
      \<longleftrightarrow> (\<forall>i. classStart \<le> i \<and> i < length source \<longrightarrow> source ! i \<noteq> CHR ''{''))
   \<and> (indexOfFrom source CHR ''{'' classStart = None \<longrightarrow> extractClassMethods source classStart = Some [])
   \<and> (\<forall>b. indexOfFrom source CHR ''{'' classStart = Some b \<longrightarrow>
          classStart \<le> b \<and> b < length source \<and> source ! b = CHR ''{''
          \<and> (\<forall>i. classStart \<le> i \<and> i < b \<longrightarrow> source ! i \<noteq> CHR ''{'')
          \<and> b < classBodyEnd source b \<and> classBodyEnd source b \<le> length source
          \<and> (\<forall>j. b \<le> j \<and> j < classBodyEnd source b \<longrightarrow> 0 < depthAt source b j)
          \<and> (classBodyEnd source b < length source \<longrightarrow>
                source ! classBodyEnd source b = CHR ''}'' \<and> depthAt source b (classBodyEnd source b) = 0)
          \<and> ((\<forall>j. b \<le> j \<and> j < length source \<longrightarrow> 0 < depthAt source b j)
                \<longrightarrow> classBodyEnd source b = length source)
          \<and> extractClassMethods source classStart
              = Option.bind (matchAll methodRegex (slice source (b + 1) (classBodyEnd source b)))
                  collectMethods)
   \<and> (\<exists>ms. extractClassMethods source classStart = Some ms)
   \<and> (\<exists>es. extractJSExports source = Some es)
   \<and> (\<forall>(e::env) p lang. detectLanguage p = Some lang \<and> lang \<noteq> Python \<and> readFile e p = Some source
         \<longrightarrow> (\<exists>a. fst (analyzeFile e p) = Inr a))"
proof (intro conjI allI impI)
  show "indexOfFrom source CHR ''{'' classStart = None
      \<longleftrightarrow> (\<forall>i. classStart \<le> i \<and> i < length source \<longrightarrow> source ! i \<noteq> CHR ''{'')"
    by (rule indexOfFrom_None)
  show "\<exists>ms. extractClassMethods source classStart = Some ms"
    by (rule extractClassMethods_total)
  show "\<exists>es. extractJSExports source = Some es"
    by (rule extractJSExports_total)
next
  assume "indexOfFrom source CHR ''{'' classStart = None"
  then show "extractClassMethods source classStart = Some []"
    by (simp add: extractClassMethods_def)
next
  fix e :: env and p lang
  assume "detectLanguage p = Some lang \<and> lang \<noteq> Python \<and> readFile e p = Some source"
  then show "\<exists>a. fst (analyzeFile e p) = Inr a"
    using analyzeFile_js_returns by blast
next
  fix b
  assume b: "indexOfFrom source CHR ''{'' classStart = Some b"
  then have f: "classStart \<le> b \<and> b < length source \<and> source ! b = CHR ''{''
      \<and> (\<forall>i. classStart \<le> i \<and> i < b \<longrightarrow> source ! i \<noteq> CHR ''{'')"
    by (simp add: indexOfFrom_Some)
  then have bl: "b < length source" and bb: "source ! b = CHR ''{''" by simp_all
  note sp = classBodyEnd_spec [OF bl bb]
  show "classStart \<le> b" "b < length source" "source ! b = CHR ''{''"
    using f by simp_all
  show "b < classBodyEnd source b" "classBodyEnd source b \<le> length source"
    using sp by simp_all
  show "extractClassMethods source classStart
              = Option.bind (matchAll methodRegex (slice source (b + 1) (classBodyEnd source b)))
                  collectMethods"
    using b by (simp add: extractClassMethods_def)
  show "source ! i \<noteq> CHR ''{''" if "classStart \<le> i \<and> i < b" for i
    using f that by blast
  show "0 < depthAt source b j" if "b \<le> j \<and> j < classBodyEnd source b" for j
    using sp that by blast
  show "classBodyEnd source b = length source"
    if "\<forall>j. b \<le> j \<and> j < length source \<longrightarrow> 0 < depthAt source b j"
    using that by (rule classBodyEnd_unbalanced [OF bl bb])
  show "depthAt source b (classBodyEnd source b) = 0" if "classBodyEnd source b < length source"
    using sp that by blast
  show "source ! classBodyEnd source b = CHR ''}''" if "classBodyEnd source b < length source"
    using that by (rule classBodyEnd_closing [OF bl bb])
qed

lemma no_brace: "indexOfFrom ''export class A'' CHR ''{'' 0 = None"
  by (simp add: indexOfFrom_def)

lemma closed_brace: "indexOfFrom closedClassText CHR ''{'' 0 = Some 15"
  by (simp add: closedClassText_def indexOfFrom_def)

lemma closed_end: "classBodyEnd closedClassText 15 = 24"
  by (simp add: closedClassText_def classBodyEnd_def)

lemma closed_body: "slice closedClassText (15 + 1) 24 = '' m() {} ''"
  by (simp add: closedClassText_def slice_def)

lemma closed_methods: "extractClassMethods closedClassText 0 = Some [Method ''m'' ''m()'']"
  by (simp add: closedClassText_def class_method_defs regex_defs regex_eval)

lemma closed_exports:
  "extractJSExports closedClassText = Some [ClassExport ''A'' None [Method ''m'' ''m()''] ''class A'']"
  by (simp add: closedClassText_def js_export_defs class_method_defs regex_defs regex_eval)

lemma unclosed_brace: "indexOfFrom unclosedClassText CHR ''{'' 0 = Some 15"
  by (simp add: unclosedClassText_def indexOfFrom_def)

lemma unclosed_end: "classBodyEnd unclosedClassText 15 = length unclosedClassText"
  by (simp add: unclosedClassText_def classBodyEnd_def)

lemma unclosed_body: "slice unclosedClassText (15 + 1) (length unclosedClassText) = '' m() { function g() {}''"
  by (simp add: unclosedClassText_def slice_def)

lemma unclosed_methods:
  "extractClassMethods unclosedClassText 0 = Some [Method ''m'' ''m()'', Method ''g'' ''g()'']"
  by (simp add: unclosedClassText_def class_method_defs regex_defs regex_eval)

lemma unclosed_exports:
  "extractJSExports unclosedClassText
     = Some [ClassExport ''A'' None [Method ''m'' ''m()'', Method ''g'' ''g()''] ''class A'']"
  by (simp add: unclosedClassText_def js_export_defs class_method_defs regex_defs regex_eval)

lemma detectLanguage_proj_a_js: "detectLanguage ''/proj/a.js'' = Some JavaScript"
  by (simp add: detectLanguage_def LANGUAGE_MAP_def extname_eval toLowerCase_eval)

theorem C2_class_body_witness:
  "indexOfFrom ''export class A'' CHR ''{'' 0 = None
   \<and> extractClassMethods ''export class A'' 0 = Some []
   \<and> indexOfFrom closedClassText CHR ''{'' 0 = Some 15
   \<and> classBodyEnd closedClassText 15 = 24
   \<and> closedClassText ! 24 = CHR ''}''
   \<and> depthAt closedClassText 15 24 = 0
   \<and> slice closedClassText (15 + 1) 24 = '' m() {} ''
   \<and> extractClassMethods closedClassText 0 = Some [Method ''m'' ''m()'']
   \<and> extractJSExports closedClassText = Some [ClassExport ''A'' None [Method ''m'' ''m()''] ''class A'']
   \<and> indexOfFrom unclosedClassText CHR ''{'' 0 = Some 15
   \<and> classBodyEnd unclosedClassText 15 = length unclosedClassText
   \<and> slice unclosedClassText (15 + 1) (length unclosedClassText) = '' m() { function g() {}''
   \<and> extractClassMethods unclosedClassText 0 = Some [Method ''m'' ''m()'', Method ''g'' ''g()'']
   \<and> extractJSExports unclosedClassText
       = Some [ClassExport ''A'' None [Method ''m'' ''m()'', Method ''g'' ''g()''] ''class A'']
   \<and> detectLanguage ''/proj/a.js'' = Some JavaScript
   \<and> readFile unclosedEnv ''/proj/a.js'' = Some unclosedClassText
   \<and> (\<exists>a. fst (analyzeFile unclosedEnv ''/proj/a.js'') = Inr a)"
proof -
  have 1: "extractClassMethods ''export class A'' 0 = Some []"
    using C2_class_body [of "''export class A''" 0] no_brace by blast
  have lt: "classBodyEnd closedClassText 15 < length closedClassText"
    by (simp add: closed_end) (simp add: closedClassText_def)
  have 2: "closedClassText ! classBodyEnd closedClassText 15 = CHR ''}''
      \<and> depthAt closedClassText 15 (classBodyEnd closedClassText 15) = 0"
    using C2_class_body [of closedClassText 0] closed_brace lt by blast
  have r: "readFile unclosedEnv ''/proj/a.js'' = Some unclosedClassText"
    by (simp add: unclosedEnv_def)
  have 3: "\<exists>a. fst (analyzeFile unclosedEnv ''/proj/a.js'') = Inr a"
    using C2_class_body [of unclosedClassText 0] detectLanguage_proj_a_js r by blast
  show ?thesis
    using 1 2 3 r no_brace closed_brace closed_end closed_body closed_methods closed_exports
      unclosed_brace unclosed_end unclosed_body unclosed_methods unclosed_exports
      detectLanguage_proj_a_js
    by simp
qed

section \<open>Control statements are not methods\<close>

lemma collectMethods_names:
  "collectMethods ms = Some r \<Longrightarrow> \<forall>x\<in>set r. mname x \<notin> set controlKeywords"
proof (induction ms arbitrary: r)
  case Nil
  then show ?case by simp
next
  case (Cons m ms)
  then show ?case
    by (auto split: option.splits if_splits)
qed

lemma collectMethods_filter:
  "collectMethods ms = Some r \<Longrightarrow>
     list_all2 (\<lambda>m x. grp m 1 = Some (mname x)
          \<and> (\<exists>g2. grp m 2 = Some g2 \<and> msignature x = mname x @ ''('' @ trim g2 @ '')''))
       (filter (\<lambda>m. grp m 1 \<notin> Some ` set controlKeywords) ms) r"
proof (induction ms arbitrary: r)
  case Nil
  then show ?case by simp
next
  case (Cons m ms)
  then show ?case
    by (auto split: option.splits if_splits)
qed

lemma extractClassMethods_matches:
  assumes "indexOfFrom source CHR ''{'' classStart = Some b"
  shows "\<exists>ms r. matchAll methodRegex (slice source (b + 1) (classBodyEnd source b)) = Some ms
     \<and> extractClassMethods source classStart = Some r
     \<and> list_all2 (\<lambda>m x. grp m 1 = Some (mname x)
          \<and> (\<exists>g2. grp m 2 = Some g2 \<and> msignature x = mname x @ ''('' @ trim g2 @ '')''))
       (filter (\<lambda>m. grp m 1 \<notin> Some ` set controlKeywords) ms) r"
proof -
  obtain r where r: "extractClassMethods source classStart = Some r"
    using extractClassMethods_total by blast
  then obtain ms where ms: "matchAll methodRegex (slice source (b + 1) (classBodyEnd source b)) = Some ms"
    and c: "collectMethods ms = Some r"
    using assms by (auto simp add: extractClassMethods_def split: Option.bind_splits)
  show ?thesis using ms r collectMethods_filter [OF c] by blast
qed

lemma extractClassMethods_names:
  assumes "extractClassMethods source classStart = Some r"
  shows "\<forall>x\<in>set r. mname x \<notin> set controlKeywords"
proof (cases "indexOfFrom source CHR ''{'' classStart")
  case None
  then show ?thesis using assms by (simp add: extractClassMethods_def)
next
  case (Some b)
  then obtain ms where "collectMethods ms = Some r"
    using assms by (auto simp add: extractClassMethods_def split: Option.bind_splits)
  then show ?thesis by (rule collectMethods_names)
qed

lemma those_map_set:
  "those (map f xs) = Some ys \<Longrightarrow> y \<in> set ys \<Longrightarrow> \<exists>x. f x = Some y"
proof (induction xs arbitrary: ys)
  case Nil
  then show ?case by simp
next
  case (Cons x xs)
  then obtain y1 ys1 where 1: "f x = Some y1" and 2: "those (map f xs) = Some ys1" and 3: "ys = y1 # ys1"
    by (auto split: option.splits)
  show ?case
  proof (cases "y = y1")
    case True
    then show ?thesis using 1 by blast
  next
    case False
    then have "y \<in> set ys1" using Cons.prems(2) 3 by simp
    then show ?thesis using Cons.IH [OF 2] by blast
  qed
qed

lemma pass_set:
  assumes "pass re build s = Some xs" and "x \<in> set xs"
  shows "\<exists>m. build m = Some x"
proof -
  obtain ms where "those (map build ms) = Some xs"
    using assms(1) by (auto simp add: pass_def split: Option.bind_splits)
  then show ?thesis using assms(2) by (rule those_map_set)
qed

lemma functionExport_isFunction: "functionExport window dflt source m = Some e \<Longrightarrow> isFunction e"
  by (auto simp add: functionExport_def Let_def split: option.splits)

lemma classExport_methods:
  "classExport source m = Some e \<Longrightarrow> extractClassMethods source (index m) = Some (methods e)"
  by (auto simp add: classExport_def split: option.splits)

lemma extractJSExports_class_methods:
  assumes "extractJSExports source = Some es" and "e \<in> set es" and "isClass e"
  shows "\<exists>classStart. extractClassMethods source classStart = Some (methods e)"
proof -
  obtain e1 e2 e3 e4 where
    1: "pass namedFuncRegex (functionExport 25 False source) source = Some e1"
    and 2: "pass arrowFuncRegex (functionExport 45 False source) source = Some e2"
    and 3: "pass classRegex (classExport source) source = Some e3"
    and 4: "pass defaultFuncRegex (functionExport 35 True source) source = Some e4"
    and es: "es = e1 @ e2 @ e3 @ e4"
    using assms(1) by (auto simp add: extractJSExports_def split: Option.bind_splits)
  have nf: "\<not> isFunction e" using assms(3) by (cases e) simp_all
  have "e \<notin> set e1" using pass_set [OF 1] functionExport_isFunction nf by blast
  moreover have "e \<notin> set e2" using pass_set [OF 2] functionExport_isFunction nf by blast
  moreover have "e \<notin> set e4" using pass_set [OF 4] functionExport_isFunction nf by blast
  ultimately have "e \<in> set e3" using assms(2) es by simp
  then obtain m where "classExport source m = Some e" using pass_set [OF 3] by blast
  then show ?thesis using classExport_methods by blast
qed

lemma stack_brace: "indexOfFrom stackClassText CHR ''{'' 0 = Some 19"
  by (simp add: stackClassText_def indexOfFrom_def)

lemma stack_end: "classBodyEnd stackClassText 19 = 137"
  by (simp add: stackClassText_def classBodyEnd_def)

lemma stack_matches:
  "map_option (map (\<lambda>m. grp m 1)) (matchAll methodRegex (slice stackClassText (19 + 1) 137))
     = Some [Some ''push'', Some ''if'', Some ''load'', Some ''create'']"
  by (simp add: stackClassText_def methodRegex_def slice_def regex_defs regex_eval)

lemma stack_methods:
  "extractClassMethods stackClassText 0
     = Some [Method ''push'' ''push(x)'', Method ''load'' ''load(id)'', Method ''create'' ''create()'']"
  by (simp add: stackClassText_def class_method_defs regex_defs regex_eval)

lemma stack_exports:
  "extractJSExports stackClassText
     = Some [ClassExport ''Stack'' None
               [Method ''push'' ''push(x)'', Method ''load'' ''load(id)'', Method ''create'' ''create()'']
               ''class Stack'']"
  by (simp add: stackClassText_def js_export_defs class_method_defs regex_defs regex_eval)

text \<open>
  C3. For every source text and every offset of a class declaration, no method that the
  scanner returns is named \<open>if\<close>, \<open>for\<close>, \<open>while\<close>, \<open>switch\<close> or \<open>catch\<close>, and so no method of a
  class symbol of the export extractor is. The methods returned are, in their order, those
  matches of the method pattern in the class body whose name is none of these five words: the
  name of a method is the first group of its match and its signature is the name with the
  trimmed second group in parentheses. In particular, for the class \<open>Stack\<close> with the three
  methods \<open>push\<close>, \<open>load\<close> and \<open>create\<close>, where the body of \<open>push\<close> holds \<open>if (x) {\<close>, the
  pattern matches four times, the second time at the \<open>if\<close>, and the extractor returns the
  class with exactly the three methods.
\<close>

theorem C3_no_control_keywords:
  "(\<forall>r. extractClassMethods source classStart = Some r
       \<longrightarrow> (\<forall>x\<in>set r. mname x \<notin> {''if'', ''for'', ''while'', ''switch'', ''catch''}))
   \<and> (\<forall>es. extractJSExports source = Some es
       \<longrightarrow> (\<forall>e\<in>set es. isClass e
             \<longrightarrow> (\<forall>x\<in>set (methods e). mname x \<notin> {''if'', ''for'', ''while'', ''switch'', ''catch''})))
   \<and> (\<forall>b. indexOfFrom source CHR ''{'' classStart = Some b
       \<longrightarrow> (\<exists>ms r. matchAll methodRegex (slice source (b + 1) (classBodyEnd source b)) = Some ms
             \<and> extractClassMethods source classStart = Some r
             \<and> list_all2 (\<lambda>m x. grp m 1 = Some (mname x)
                    \<and> (\<exists>g2. grp m 2 = Some g2 \<and> msignature x = mname x @ ''('' @ trim g2 @ '')''))
                 (filter (\<lambda>m. grp m 1 \<notin> Some ` {''if'', ''for'', ''while'', ''switch'', ''catch''}) ms) r))
   \<and> map_option (map (\<lambda>m. grp m 1)) (matchAll methodRegex (slice stackClassText (19 + 1) 137))
       = Some [Some ''push'', Some ''if'', Some ''load'', Some ''create'']
   \<and> extractJSExports stackClassText
       = Some [ClassExport ''Stack'' None
                 [Method ''push'' ''push(x)'', Method ''load'' ''load(id)'', Method ''create'' ''create()'']
                 ''class Stack'']"
proof -
  have k: "set controlKeywords = {''if'', ''for'', ''while'', ''switch'', ''catch''}"
    by (simp add: controlKeywords_def)
  have 1: "\<forall>r. extractClassMethods source classStart = Some r
       \<longrightarrow> (\<forall>x\<in>set r. mname x \<notin> {''if'', ''for'', ''while'', ''switch'', ''catch''})"
    using extractClassMethods_names unfolding k by blast
  have 2: "\<forall>es. extractJSExports source = Some es
       \<longrightarrow> (\<forall>e\<in>set es. isClass e
             \<longrightarrow> (\<forall>x\<in>set (methods e). mname x \<notin> {''if'', ''for'', ''while'', ''switch'', ''catch''}))"
  proof (intro allI impI ballI)
    fix es e x
    assume "extractJSExports source = Some es" and "e \<in> set es" and "isClass e"
      and x: "x \<in> set (methods e)"
    then obtain c where "extractClassMethods source c = Some (methods e)"
      using extractJSExports_class_methods by blast
    then show "mname x \<notin> {''if'', ''for'', ''while'', ''switch'', ''catch''}"
      using extractClassMethods_names x unfolding k by blast
  qed
  have 3: "\<forall>b. indexOfFrom source CHR ''{'' classStart = Some b
       \<longrightarrow> (\<exists>ms r. matchAll methodRegex (slice source (b + 1) (classBodyEnd source b)) = Some ms
             \<and> extractClassMethods source classStart = Some r
             \<and> list_all2 (\<lambda>m x. grp m 1 = Some (mname x)
                    \<and> (\<exists>g2. grp m 2 = Some g2 \<and> msignature x = mname x @ ''('' @ trim g2 @ '')''))
                 (filter (\<lambda>m. grp m 1 \<notin> Some ` {''if'', ''for'', ''while'', ''switch'', ''catch''}) ms) r)"
    using extractClassMethods_matches unfolding k by blast
  show ?thesis
    using 1 2 3 stack_matches stack_exports by blast
qed

theorem C3_no_control_keywords_witness:
  "indexOfFrom stackClassText CHR ''{'' 0 = Some 19
   \<and> classBodyEnd stackClassText 19 = 137
   \<and> extractClassMethods stackClassText 0
       = Some [Method ''push'' ''push(x)'', Method ''load'' ''load(id)'', Method ''create'' ''create()'']
   \<and> ''push'' \<notin> {''if'', ''for'', ''while'', ''switch'', ''catch''}
   \<and> ''load'' \<notin> {''if'', ''for'', ''while'', ''switch'', ''catch''}
   \<and> ''create'' \<notin> {''if'', ''for'', ''while'', ''switch'', ''catch''}
   \<and> (\<exists>ms. matchAll methodRegex (slice stackClassText (19 + 1) 137) = Some ms
         \<and> map (\<lambda>m. grp m 1) ms = [Some ''push'', Some ''if'', Some ''load'', Some ''create'']
         \<and> list_all2 (\<lambda>m x. grp m 1 = Some (mname x)
                \<and> (\<exists>g2. grp m 2 = Some g2 \<and> msignature x = mname x @ ''('' @ trim g2 @ '')''))
             (filter (\<lambda>m. grp m 1 \<notin> Some ` {''if'', ''for'', ''while'', ''switch'', ''catch''}) ms)
             [Method ''push'' ''push(x)'', Method ''load'' ''load(id)'', Method ''create'' ''create()''])"
proof -
  note t = C3_no_control_keywords [of stackClassText 0]
  have "\<forall>x\<in>set [Method ''push'' ''push(x)'', Method ''load'' ''load(id)'', Method ''create'' ''create()''].
          mname x \<notin> {''if'', ''for'', ''while'', ''switch'', ''catch''}"
    using t stack_methods by blast
  then have p1: "''push'' \<notin> {''if'', ''for'', ''while'', ''switch'', ''catch''}"
    and p2: "''load'' \<notin> {''if'', ''for'', ''while'', ''switch'', ''catch''}"
    and p3: "''create'' \<notin> {''if'', ''for'', ''while'', ''switch'', ''catch''}"
    by simp_all
  obtain ms r where ms: "matchAll methodRegex (slice stackClassText (19 + 1) (classBodyEnd stackClassText 19)) = Some ms"
    and r: "extractClassMethods stackClassText 0 = Some r"
    and la: "list_all2 (\<lambda>m x. grp m 1 = Some (mname x)
                \<and> (\<exists>g2. grp m 2 = Some g2 \<and> msignature x = mname x @ ''('' @ trim g2 @ '')''))
             (filter (\<lambda>m. grp m 1 \<notin> Some ` {''if'', ''for'', ''while'', ''switch'', ''catch''}) ms) r"
    using t stack_brace by blast
  have ms': "matchAll methodRegex (slice stackClassText (19 + 1) 137) = Some ms"
    using ms by (simp only: stack_end)
  have g: "map (\<lambda>m. grp m 1) ms = [Some ''push'', Some ''if'', Some ''load'', Some ''create'']"
    using stack_matches ms' by simp
  have r': "r = [Method ''push'' ''push(x)'', Method ''load'' ''load(id)'', Method ''create'' ''create()'']"
    using r stack_methods by simp
  have e: "\<exists>ms. matchAll methodRegex (slice stackClassText (19 + 1) 137) = Some ms
         \<and> map (\<lambda>m. grp m 1) ms = [Some ''push'', Some ''if'', Some ''load'', Some ''create'']
         \<and> list_all2 (\<lambda>m x. grp m 1 = Some (mname x)
                \<and> (\<exists>g2. grp m 2 = Some g2 \<and> msignature x = mname x @ ''('' @ trim g2 @ '')''))
             (filter (\<lambda>m. grp m 1 \<notin> Some ` {''if'', ''for'', ''while'', ''switch'', ''catch''}) ms)
             [Method ''push'' ''push(x)'', Method ''load'' ''load(id)'', Method ''create'' ''create()'']"
  proof (intro exI [of _ ms] conjI)
    show "matchAll methodRegex (slice stackClassText (19 + 1) 137) = Some ms" by (fact ms')
    show "map (\<lambda>m. grp m 1) ms = [Some ''push'', Some ''if'', Some ''load'', Some ''create'']" by (fact g)
    show "list_all2 (\<lambda>m x. grp m 1 = Some (mname x)
                \<and> (\<exists>g2. grp m 2 = Some g2 \<and> msignature x = mname x @ ''('' @ trim g2 @ '')''))
             (filter (\<lambda>m. grp m 1 \<notin> Some ` {''if'', ''for'', ''while'', ''switch'', ''catch''}) ms)
             [Method ''push'' ''push(x)'', Method ''load'' ''load(id)'', Method ''create'' ''create()'']"
      using la unfolding r' .
  qed
  show ?thesis
    by (intro conjI) (rule stack_brace stack_end stack_methods p1 p2 p3 e)+
qed

end
